theory Spec2Isabelle
  imports Main "HOL-Library.AList" "HOL-Library.Sublist"
begin

section \<open>Errors and strings\<close>

text \<open>
  The script \<^verbatim>\<open>scripts/add-new-bcd.ts\<close> is embedded function by function.
  A JavaScript exception is a value of \<open>error\<close>: \<open>TypeError\<close> is the
  engine's own exception (reading a property of \<^verbatim>\<open>undefined\<close> or
  \<^verbatim>\<open>null\<close>, the \<^verbatim>\<open>in\<close> operator on a primitive, a property
  written to a primitive in a module, which is strict code), \<open>Error m\<close> is
  \<^verbatim>\<open>throw new Error(m)\<close>. \<open>Unmodelled\<close> is not an exception: it marks a run
  that leaves JSON data (a member inherited from \<^verbatim>\<open>Object.prototype\<close>, a
  named property put on an array), where the embedding stops instead of guessing.

  Identifier segments are ASCII strings, as the dataset's identifiers are; on
  ASCII, \<^verbatim>\<open>toLowerCase\<close> and \<^verbatim>\<open>toUpperCase\<close> change the 26 letters and
  nothing else. A case test on a first character outside ASCII is
  \<open>Unmodelled\<close>.
\<close>

datatype error = TypeError | Error string | Unmodelled

definition isAscii :: "char \<Rightarrow> bool" where
  "isAscii c = ((of_char c :: nat) < 128)"

definition isUpperAZ :: "char \<Rightarrow> bool" where
  "isUpperAZ c = (65 \<le> (of_char c :: nat) \<and> (of_char c :: nat) \<le> 90)"

definition isLowerAZ :: "char \<Rightarrow> bool" where
  "isLowerAZ c = (97 \<le> (of_char c :: nat) \<and> (of_char c :: nat) \<le> 122)"

definition toLowerCase :: "string \<Rightarrow> string" where
  "toLowerCase s = map (\<lambda>c. if isUpperAZ c then char_of (of_char c + 32 :: nat) else c) s"

definition toUpperCase :: "string \<Rightarrow> string" where
  "toUpperCase s = map (\<lambda>c. if isLowerAZ c then char_of (of_char c - 32 :: nat) else c) s"

text \<open>\<^verbatim>\<open>s[0] === s[0].toLowerCase()\<close>: on the empty string \<^verbatim>\<open>s[0]\<close> is
  \<^verbatim>\<open>undefined\<close> and the method call throws.\<close>

definition startsWithLowerCase :: "string \<Rightarrow> error + bool" where
  "startsWithLowerCase s =
     (case s of
        [] \<Rightarrow> Inl TypeError
      | c # _ \<Rightarrow> if isAscii c then Inr ([c] = toLowerCase [c]) else Inl Unmodelled)"

definition startsWithUpperCase :: "string \<Rightarrow> error + bool" where
  "startsWithUpperCase s =
     (case s of
        [] \<Rightarrow> Inl TypeError
      | c # _ \<Rightarrow> if isAscii c then Inr ([c] = toUpperCase [c]) else Inl Unmodelled)"

text \<open>\<^verbatim>\<open>Array.prototype.join\<close> on strings.\<close>

fun js_join :: "string \<Rightarrow> string list \<Rightarrow> string" where
  "js_join sep [] = []"
| "js_join sep [x] = x"
| "js_join sep (x # y # ys) = x @ sep @ js_join sep (y # ys)"

section \<open>The path resolver\<close>

text \<open>
  \<open>getFilePath\<close> takes the two things it imports: the list
  \<^verbatim>\<open>namespaces\<close> of \<^verbatim>\<open>test-builder/javascript.js\<close> and Node's
  \<^verbatim>\<open>path.join\<close>. \<open>addJsonSuffix\<close> is the statement
  \<^verbatim>\<open>parts[parts.length - 1] += ".json"\<close>; \<open>take n parts\<close> is
  \<^verbatim>\<open>parts.length = n\<close>, which every branch runs on at least \<open>n\<close> parts.
\<close>

definition addJsonSuffix :: "string list \<Rightarrow> string list" where
  "addJsonSuffix parts = parts[length parts - 1 := parts ! (length parts - 1) @ ''.json'']"

definition getFilePath ::
  "string list \<Rightarrow> (string list \<Rightarrow> string) \<Rightarrow> string list \<Rightarrow> error + string" where
  "getFilePath jsNamespaces path_join ident =
    (let parts = ident in
     if 2 \<le> length parts \<and> parts ! 0 = ''api'' then
       (case startsWithLowerCase (parts ! 1) of
          Inl e \<Rightarrow> Inl e
        | Inr True \<Rightarrow> Inr (path_join (addJsonSuffix [parts ! 0, ''_globals'', parts ! 1]))
        | Inr False \<Rightarrow> Inr (path_join (addJsonSuffix (take 2 parts))))
     else if 3 \<le> length parts \<and> parts ! 0 \<in> set [''css'', ''html'', ''svg'', ''mathml''] then
       Inr (path_join (addJsonSuffix (take 3 parts)))
     else if 3 \<le> length parts \<and> parts ! 0 = ''javascript'' \<and> parts ! 1 = ''builtins'' then
       (case startsWithLowerCase (parts ! 2) of
          Inl e \<Rightarrow> Inl e
        | Inr True \<Rightarrow> Inr ''javascript/builtins/globals.json''
        | Inr False \<Rightarrow>
            (case (if 4 \<le> length parts \<and> parts ! 2 \<noteq> parts ! 3 \<and> parts ! 2 \<in> set jsNamespaces
                   then startsWithUpperCase (parts ! 3) else Inr False) of
               Inl e \<Rightarrow> Inl e
             | Inr True \<Rightarrow> Inr (path_join (addJsonSuffix (take 4 parts)))
             | Inr False \<Rightarrow> Inr (path_join (addJsonSuffix (take 3 parts)))))
     else if 2 \<le> length parts \<and> parts ! 0 = ''webassembly'' then
       Inr (path_join (addJsonSuffix (take 2 parts)))
     else Inl (Error (''Cannot determine file path from BCD path: '' @ js_join ''.'' ident)))"

text \<open>
  Modelled from the spec: the recognised namespace list lives in
  \<^verbatim>\<open>test-builder/javascript.js\<close>; the spec names \<^verbatim>\<open>Intl\<close> and
  \<^verbatim>\<open>WebAssembly\<close> as members. \<open>slashJoin\<close> is \<^verbatim>\<open>path.join\<close> on a POSIX
  platform for segments that are not empty, hold no \<^verbatim>\<open>/\<close> and are neither
  \<^verbatim>\<open>.\<close> nor \<^verbatim>\<open>..\<close>. Both are used for concrete runs only.
\<close>

definition exampleNamespaces :: "string list" where
  "exampleNamespaces = [''Intl'', ''WebAssembly'']"

definition slashJoin :: "string list \<Rightarrow> string" where
  "slashJoin parts = js_join ''/'' parts"

text \<open>
  The claim's wording of "an area rule matches": the first segment names an
  area and the path is long enough for it.
\<close>

definition areaRuleApplies :: "string list \<Rightarrow> bool" where
  "areaRuleApplies ident =
     ((2 \<le> length ident \<and> hd ident = ''api'') \<or>
      (3 \<le> length ident \<and> hd ident \<in> {''css'', ''html'', ''svg'', ''mathml''}) \<or>
      (3 \<le> length ident \<and> take 2 ident = [''javascript'', ''builtins'']) \<or>
      (2 \<le> length ident \<and> hd ident = ''webassembly''))"

section \<open>JSON trees\<close>

text \<open>
  The trees the script works on come from \<^verbatim>\<open>fs.readJSON\<close> or start as
  \<^verbatim>\<open>{}\<close>, so a value is JSON data. An object is the list of its entries in
  enumeration order; \<open>map_of\<close> reads a key and \<open>AList.update\<close> is the
  assignment \<^verbatim>\<open>data[part] = v\<close>: an existing key keeps its place, a new key
  goes to the end. (JavaScript enumerates keys that are array indices before
  the others; the identifiers of the dataset are names, not numbers.) Numbers
  are opaque to the script and are kept as integers.
\<close>

datatype json =
    JNull
  | JBool bool
  | JNum int
  | JStr string
  | JArr "json list"
  | JObj "(string \<times> json) list"

text \<open>The property names every plain object inherits from
  \<^verbatim>\<open>Object.prototype\<close>: for these \<^verbatim>\<open>part in data\<close> is true although the
  object has no such entry.\<close>

definition objectPrototypeKeys :: "string list" where
  "objectPrototypeKeys =
     [''constructor'', ''__defineGetter__'', ''__defineSetter__'', ''hasOwnProperty'',
      ''__lookupGetter__'', ''__lookupSetter__'', ''isPrototypeOf'',
      ''propertyIsEnumerable'', ''toString'', ''valueOf'', ''__proto__'',
      ''toLocaleString'']"

definition digitChar :: "nat \<Rightarrow> char" where
  "digitChar d = char_of (48 + d)"

fun decimal :: "nat \<Rightarrow> string" where
  "decimal n = (if n < 10 then [digitChar n] else decimal (n div 10) @ [digitChar (n mod 10)])"

declare decimal.simps [simp del]

definition indexKeys :: "nat \<Rightarrow> string list" where
  "indexKeys n = map decimal [0..<n]"

text \<open>
  \<^verbatim>\<open>Object.assign({}, obj)\<close>: a new object with the own enumerable
  properties of \<open>obj\<close>. An array gives its elements under their indices, a
  string its characters, any other primitive nothing. An entry named
  \<^verbatim>\<open>__proto__\<close> would be assigned through the inherited setter.
\<close>

definition object_assign :: "json \<Rightarrow> error + json" where
  "object_assign obj =
     (case obj of
        JObj kvs \<Rightarrow> if ''__proto__'' \<in> fst ` set kvs then Inl Unmodelled else Inr (JObj kvs)
      | JArr xs \<Rightarrow> Inr (JObj (zip (indexKeys (length xs)) xs))
      | JStr s \<Rightarrow> Inr (JObj (zip (indexKeys (length s)) (map (\<lambda>c. JStr [c]) s)))
      | _ \<Rightarrow> Inr (JObj []))"

section \<open>The tree merge\<close>

text \<open>
  \<open>recursiveAdd\<close> on values: the tree and the leaf are given as data, and the
  result is the tree after the call. \<^verbatim>\<open>ident[i]\<close> past the end is
  \<^verbatim>\<open>undefined\<close>, which as a property key is the string \<^verbatim>\<open>undefined\<close>.
  On a primitive or \<^verbatim>\<open>null\<close> both \<^verbatim>\<open>part in data\<close> and the assignment
  throw a TypeError.
\<close>

function recursiveAdd :: "string list \<Rightarrow> nat \<Rightarrow> json \<Rightarrow> json \<Rightarrow> error + json" where
  "recursiveAdd ident i data obj =
     (let part = (if i < length ident then ident ! i else ''undefined'') in
      if i + 1 < length ident then
        (case data of
           JObj kvs \<Rightarrow>
             if part \<in> set objectPrototypeKeys \<and> map_of kvs part = None then Inl Unmodelled
             else
               (case recursiveAdd ident (i + 1)
                       (case map_of kvs part of Some v \<Rightarrow> v | None \<Rightarrow> JObj []) obj of
                  Inl e \<Rightarrow> Inl e
                | Inr r \<Rightarrow> Inr (JObj (AList.update part r kvs)))
         | JArr xs \<Rightarrow> Inl Unmodelled
         | _ \<Rightarrow> Inl TypeError)
      else
        (case data of
           JObj kvs \<Rightarrow>
             if part = ''__proto__'' \<and> map_of kvs part = None then Inl Unmodelled
             else
               (case object_assign obj of
                  Inl e \<Rightarrow> Inl e
                | Inr c \<Rightarrow> Inr (JObj (AList.update part c kvs)))
         | JArr xs \<Rightarrow> Inl Unmodelled
         | _ \<Rightarrow> Inl TypeError))"
  by pat_completeness auto
termination
  by (relation "measure (\<lambda>(ident, i, data, obj). length ident - i)") auto

declare recursiveAdd.simps [simp del]

text \<open>The same recursion on the segments still to go, for proofs by induction
  on the path.\<close>

fun addPath :: "string list \<Rightarrow> json \<Rightarrow> json \<Rightarrow> error + json" where
  "addPath [] data obj = Inr data"
| "addPath [part] data obj =
     (case data of
        JObj kvs \<Rightarrow>
          if part = ''__proto__'' \<and> map_of kvs part = None then Inl Unmodelled
          else
            (case object_assign obj of
               Inl e \<Rightarrow> Inl e
             | Inr c \<Rightarrow> Inr (JObj (AList.update part c kvs)))
      | JArr xs \<Rightarrow> Inl Unmodelled
      | _ \<Rightarrow> Inl TypeError)"
| "addPath (part # rest) data obj =
     (case data of
        JObj kvs \<Rightarrow>
          if part \<in> set objectPrototypeKeys \<and> map_of kvs part = None then Inl Unmodelled
          else
            (case addPath rest (case map_of kvs part of Some v \<Rightarrow> v | None \<Rightarrow> JObj []) obj of
               Inl e \<Rightarrow> Inl e
             | Inr r \<Rightarrow> Inr (JObj (AList.update part r kvs)))
      | JArr xs \<Rightarrow> Inl Unmodelled
      | _ \<Rightarrow> Inl TypeError)"

text \<open>What one level of \<open>addPath\<close> puts under its key: it depends on the
  entry under that key only.\<close>

definition childResult :: "string \<Rightarrow> string list \<Rightarrow> json option \<Rightarrow> json \<Rightarrow> error + json" where
  "childResult part rest v obj =
     (if rest = [] then
        (if part = ''__proto__'' \<and> v = None then Inl Unmodelled else object_assign obj)
      else
        (if part \<in> set objectPrototypeKeys \<and> v = None then Inl Unmodelled
         else addPath rest (case v of Some c \<Rightarrow> c | None \<Rightarrow> JObj []) obj))"

text \<open>
  Two trees are the same when they are the same mapping at every level: the
  order in which an object lists its entries is not part of the tree.
\<close>

fun same_tree :: "json \<Rightarrow> json \<Rightarrow> bool" where
  "same_tree (JObj xs) (JObj ys) =
     (set (map fst xs) = set (map fst ys) \<and>
      (\<forall>(k, a) \<in> set xs. map_of xs k = Some a \<longrightarrow>
         (case map_of ys k of Some b \<Rightarrow> same_tree a b | None \<Rightarrow> False)))"
| "same_tree (JArr xs) (JArr ys) = list_all2 same_tree xs ys"
| "same_tree a b = (a = b)"

text \<open>Two runs agree when both throw or both return the same tree.\<close>

definition same_outcome :: "error + json \<Rightarrow> error + json \<Rightarrow> bool" where
  "same_outcome r1 r2 =
     (case (r1, r2) of
        (Inr x, Inr y) \<Rightarrow> same_tree x y
      | (Inl _, Inl _) \<Rightarrow> True
      | _ \<Rightarrow> False)"

text \<open>Merging \<open>a\<close> at \<open>p\<close> and then \<open>b\<close> at \<open>q\<close>; the second call
  does not run when the first has thrown.\<close>

definition mergeTwo :: "string list \<Rightarrow> json \<Rightarrow> string list \<Rightarrow> json \<Rightarrow> json \<Rightarrow> error + json" where
  "mergeTwo p a q b t =
     (case recursiveAdd p 0 t a of
        Inl e \<Rightarrow> Inl e
      | Inr t1 \<Rightarrow> recursiveAdd q 0 t1 b)"

text \<open>A second merge after a first one, on the path recursion.\<close>

definition thenAdd :: "error + json \<Rightarrow> string list \<Rightarrow> json \<Rightarrow> error + json" where
  "thenAdd r q b = (case r of Inl e \<Rightarrow> Inl e | Inr t1 \<Rightarrow> addPath q t1 b)"

text \<open>
  Reading a tree along a path of keys: the value under the last key, when every
  key on the way is an entry of an object.
\<close>

fun getPath :: "string list \<Rightarrow> json \<Rightarrow> json option" where
  "getPath [] t = Some t"
| "getPath (k # ks) (JObj kvs) = (case map_of kvs k of Some v \<Rightarrow> getPath ks v | None \<Rightarrow> None)"
| "getPath (k # ks) _ = None"

definition valueAt :: "string list \<Rightarrow> error + json \<Rightarrow> json option" where
  "valueAt p r = (case r of Inr t \<Rightarrow> getPath p t | Inl e \<Rightarrow> None)"

section \<open>The tree merge on a store\<close>

text \<open>
  Where a result depends on which object is which, objects live in a store: a
  list of objects, an address being an index, a new object going to the end. A
  value is a primitive or a reference. \<open>recursiveAdd_store\<close> is
  \<open>recursiveAdd\<close> again with the store passed through: \<^verbatim>\<open>{}\<close> and
  \<^verbatim>\<open>Object.assign({}, obj)\<close> allocate, \<^verbatim>\<open>data[part] = v\<close> rewrites the
  object \<open>data\<close> refers to, as it is when the right-hand side has been
  evaluated, and the call returns the reference it was given.
\<close>

datatype val = VNull | VBool bool | VNum int | VStr string | VRef nat

datatype hobj = HObj "(string \<times> val) list" | HArr "val list"

type_synonym store = "hobj list"

definition field :: "store \<Rightarrow> nat \<Rightarrow> string \<Rightarrow> val option" where
  "field h a k =
     (if a < length h then (case h ! a of HObj kvs \<Rightarrow> map_of kvs k | HArr xs \<Rightarrow> None) else None)"

definition assignField :: "store \<Rightarrow> nat \<Rightarrow> string \<Rightarrow> val \<Rightarrow> store" where
  "assignField h a k v =
     (case h ! a of HObj kvs \<Rightarrow> h[a := HObj (AList.update k v kvs)] | HArr xs \<Rightarrow> h)"

definition copyEntries :: "store \<Rightarrow> val \<Rightarrow> error + (string \<times> val) list" where
  "copyEntries h obj =
     (case obj of
        VRef a \<Rightarrow>
          if a < length h then
            (case h ! a of
               HObj kvs \<Rightarrow> if ''__proto__'' \<in> fst ` set kvs then Inl Unmodelled else Inr kvs
             | HArr xs \<Rightarrow> Inr (zip (indexKeys (length xs)) xs))
          else Inl Unmodelled
      | VStr s \<Rightarrow> Inr (zip (indexKeys (length s)) (map (\<lambda>c. VStr [c]) s))
      | _ \<Rightarrow> Inr [])"

definition object_assign_store :: "store \<Rightarrow> val \<Rightarrow> error + (store \<times> val)" where
  "object_assign_store h obj =
     (case copyEntries h obj of
        Inl e \<Rightarrow> Inl e
      | Inr kvs \<Rightarrow> Inr (h @ [HObj kvs], VRef (length h)))"

function recursiveAdd_store ::
  "string list \<Rightarrow> nat \<Rightarrow> store \<Rightarrow> val \<Rightarrow> val \<Rightarrow> error + (store \<times> val)" where
  "recursiveAdd_store ident i h data obj =
     (let part = (if i < length ident then ident ! i else ''undefined'') in
      if i + 1 < length ident then
        (case data of
           VRef a \<Rightarrow>
             if a < length h then
               (case h ! a of
                  HObj kvs \<Rightarrow>
                    if part \<in> set objectPrototypeKeys \<and> map_of kvs part = None then Inl Unmodelled
                    else
                      (case (case map_of kvs part of
                               Some v \<Rightarrow> recursiveAdd_store ident (i + 1) h v obj
                             | None \<Rightarrow> recursiveAdd_store ident (i + 1) (h @ [HObj []]) (VRef (length h)) obj) of
                         Inl e \<Rightarrow> Inl e
                       | Inr (h2, r) \<Rightarrow> Inr (assignField h2 a part r, data))
                | HArr xs \<Rightarrow> Inl Unmodelled)
             else Inl Unmodelled
         | _ \<Rightarrow> Inl TypeError)
      else
        (case data of
           VRef a \<Rightarrow>
             if a < length h then
               (case h ! a of
                  HObj kvs \<Rightarrow>
                    if part = ''__proto__'' \<and> map_of kvs part = None then Inl Unmodelled
                    else
                      (case object_assign_store h obj of
                         Inl e \<Rightarrow> Inl e
                       | Inr (h1, c) \<Rightarrow> Inr (assignField h1 a part c, data))
                | HArr xs \<Rightarrow> Inl Unmodelled)
             else Inl Unmodelled
         | _ \<Rightarrow> Inl TypeError))"
  by pat_completeness auto
termination
  by (relation "measure (\<lambda>(ident, i, h, data, obj). length ident - i)") auto

declare recursiveAdd_store.simps [simp del]

text \<open>The same recursion on the segments still to go.\<close>

fun addPath_store :: "string list \<Rightarrow> store \<Rightarrow> val \<Rightarrow> val \<Rightarrow> error + (store \<times> val)" where
  "addPath_store [] h data obj = Inr (h, data)"
| "addPath_store [part] h data obj =
     (case data of
        VRef a \<Rightarrow>
          if a < length h then
            (case h ! a of
               HObj kvs \<Rightarrow>
                 if part = ''__proto__'' \<and> map_of kvs part = None then Inl Unmodelled
                 else
                   (case object_assign_store h obj of
                      Inl e \<Rightarrow> Inl e
                    | Inr (h1, c) \<Rightarrow> Inr (assignField h1 a part c, data))
             | HArr xs \<Rightarrow> Inl Unmodelled)
          else Inl Unmodelled
      | _ \<Rightarrow> Inl TypeError)"
| "addPath_store (part # rest) h data obj =
     (case data of
        VRef a \<Rightarrow>
          if a < length h then
            (case h ! a of
               HObj kvs \<Rightarrow>
                 if part \<in> set objectPrototypeKeys \<and> map_of kvs part = None then Inl Unmodelled
                 else
                   (case (case map_of kvs part of
                            Some v \<Rightarrow> addPath_store rest h v obj
                          | None \<Rightarrow> addPath_store rest (h @ [HObj []]) (VRef (length h)) obj) of
                      Inl e \<Rightarrow> Inl e
                    | Inr (h2, r) \<Rightarrow> Inr (assignField h2 a part r, data))
             | HArr xs \<Rightarrow> Inl Unmodelled)
          else Inl Unmodelled
      | _ \<Rightarrow> Inl TypeError)"

text \<open>
  The objects of the store a merge walks through, each with the key it takes
  there; the walk ends where a key is missing, the rest of the path being built
  from new objects.
\<close>

fun walk :: "store \<Rightarrow> val \<Rightarrow> string list \<Rightarrow> (nat \<times> string) list" where
  "walk h (VRef a) (k # ks) =
     (a, k) # (case field h a k of Some v \<Rightarrow> walk h v ks | None \<Rightarrow> [])"
| "walk h _ _ = []"

text \<open>Reading the store along a path of keys, from a value.\<close>

fun getPath_store :: "store \<Rightarrow> val \<Rightarrow> string list \<Rightarrow> val option" where
  "getPath_store h v [] = Some v"
| "getPath_store h (VRef a) (k # ks) =
     (case field h a k of Some v \<Rightarrow> getPath_store h v ks | None \<Rightarrow> None)"
| "getPath_store h _ (k # ks) = None"

text \<open>
  The inputs on which the merge does not throw and stays within JSON data:
  every value on the path is a plain object, no segment before the last is a
  name that a missing entry would inherit, and the last is not a missing
  \<^verbatim>\<open>__proto__\<close>. \<open>freshPath\<close> is the same for the part of the path that is
  built from empty objects.
\<close>

fun freshPath :: "string list \<Rightarrow> bool" where
  "freshPath [] = True"
| "freshPath [k] = (k \<noteq> ''__proto__'')"
| "freshPath (k # ks) = (k \<notin> set objectPrototypeKeys \<and> freshPath ks)"

fun plainPath :: "store \<Rightarrow> val \<Rightarrow> string list \<Rightarrow> bool" where
  "plainPath h v [] = True"
| "plainPath h (VRef a) [k] =
     (a < length h \<and>
      (case h ! a of HObj kvs \<Rightarrow> \<not> (k = ''__proto__'' \<and> map_of kvs k = None) | HArr xs \<Rightarrow> False))"
| "plainPath h (VRef a) (k # ks) =
     (a < length h \<and>
      (case h ! a of
         HObj kvs \<Rightarrow>
           (case map_of kvs k of
              Some v \<Rightarrow> plainPath h v ks
            | None \<Rightarrow> k \<notin> set objectPrototypeKeys \<and> freshPath ks)
       | HArr xs \<Rightarrow> False))"
| "plainPath h _ (k # ks) = False"

section \<open>The support traversal\<close>

text \<open>
  JavaScript truthiness on JSON values, and the property reads the traversal
  makes. The names it reads (\<^verbatim>\<open>__compat\<close>, \<^verbatim>\<open>support\<close>,
  \<^verbatim>\<open>version_added\<close>, \<^verbatim>\<open>version_removed\<close>) are properties of no array,
  string, number or boolean, so only an object can have them; \<open>None\<close> is
  \<^verbatim>\<open>undefined\<close>. Reading a property of \<^verbatim>\<open>null\<close> throws.
\<close>

fun truthy :: "json \<Rightarrow> bool" where
  "truthy JNull = False"
| "truthy (JBool b) = b"
| "truthy (JNum n) = (n \<noteq> 0)"
| "truthy (JStr s) = (s \<noteq> [])"
| "truthy (JArr xs) = True"
| "truthy (JObj kvs) = True"

definition truthyOpt :: "json option \<Rightarrow> bool" where
  "truthyOpt v = (case v of None \<Rightarrow> False | Some x \<Rightarrow> truthy x)"

fun member :: "json \<Rightarrow> string \<Rightarrow> json option" where
  "member (JObj kvs) k = map_of kvs k"
| "member _ k = None"

text \<open>\<^verbatim>\<open>!!v && typeof v == "object"\<close>: objects and arrays.\<close>

fun isObjectValue :: "json \<Rightarrow> bool" where
  "isObjectValue (JObj kvs) = True"
| "isObjectValue (JArr xs) = True"
| "isObjectValue _ = False"

text \<open>The callback \<^verbatim>\<open>(s) => s.version_added && !s.version_removed\<close>.\<close>

definition statementSupports :: "json \<Rightarrow> error + bool" where
  "statementSupports s =
     (case s of
        JNull \<Rightarrow> Inl TypeError
      | _ \<Rightarrow> Inr (truthyOpt (member s ''version_added'') \<and> \<not> truthyOpt (member s ''version_removed'')))"

text \<open>\<^verbatim>\<open>Array.prototype.some\<close> with a callback that may throw: it stops at the
  first element the callback accepts.\<close>

fun js_some :: "(json \<Rightarrow> error + bool) \<Rightarrow> json list \<Rightarrow> error + bool" where
  "js_some f [] = Inr False"
| "js_some f (x # xs) =
     (case f x of Inl e \<Rightarrow> Inl e | Inr True \<Rightarrow> Inr True | Inr False \<Rightarrow> js_some f xs)"

text \<open>\<^verbatim>\<open>Array.isArray(statements) ? statements : [statements]\<close>.\<close>

definition statementsOf :: "json \<Rightarrow> json list" where
  "statementsOf statements = (case statements of JArr xs \<Rightarrow> xs | _ \<Rightarrow> [statements])"

text \<open>\<^verbatim>\<open>Object.values\<close> of a truthy value.\<close>

definition objectValues :: "json \<Rightarrow> json list" where
  "objectValues v =
     (case v of
        JObj kvs \<Rightarrow> map snd kvs
      | JArr xs \<Rightarrow> xs
      | JStr s \<Rightarrow> map (\<lambda>c. JStr [c]) s
      | _ \<Rightarrow> [])"

text \<open>
  What the script imports and calls: the namespace list, \<^verbatim>\<open>path.join\<close>, and
  \<open>written_as\<close>, the tree a file holds after \<^verbatim>\<open>fs.writeJSON\<close> with the
  replacer \<^verbatim>\<open>orderFeatures\<close>. The dataset directory is a list of files
  under their paths relative to \<^verbatim>\<open>BCD_DIR\<close>; a file holds a parsed JSON tree.
  \<open>examined\<close> is not state of the script: it records, in order, the
  identifiers \<^verbatim>\<open>thisIdent\<close> the traversal builds, so that its course can be
  stated.
\<close>

record env =
  jsNamespaces :: "string list"
  path_join :: "string list \<Rightarrow> string"
  written_as :: "json \<Rightarrow> json"

record world =
  files :: "(string \<times> json) list"
  examined :: "string list list"

definition writeFile :: "env \<Rightarrow> string list \<Rightarrow> json \<Rightarrow> world \<Rightarrow> error + world" where
  "writeFile E ident obj w =
     (case getFilePath (jsNamespaces E) (path_join E) ident of
        Inl e \<Rightarrow> Inl e
      | Inr filepath \<Rightarrow>
          (let data = (case map_of (files w) filepath of Some d \<Rightarrow> d | None \<Rightarrow> JObj []) in
           case recursiveAdd (ident @ [''__compat'']) 0 data
                  (case member obj ''__compat'' of Some c \<Rightarrow> c | None \<Rightarrow> JNull) of
             Inl e \<Rightarrow> Inl e
           | Inr t \<Rightarrow> Inr (w\<lparr>files := AList.update filepath (written_as E t) (files w)\<rparr>)))"

text \<open>The loop over \<^verbatim>\<open>Object.values(support)\<close>: the first environment with a
  supporting statement makes the write, and the loop ends there.\<close>

fun supportLoop :: "env \<Rightarrow> string list \<Rightarrow> json \<Rightarrow> json list \<Rightarrow> world \<Rightarrow> error + world" where
  "supportLoop E thisIdent node [] w = Inr w"
| "supportLoop E thisIdent node (statements # rest) w =
     (case js_some statementSupports (statementsOf statements) of
        Inl e \<Rightarrow> Inl e
      | Inr True \<Rightarrow> writeFile E thisIdent node w
      | Inr False \<Rightarrow> supportLoop E thisIdent node rest w)"

text \<open>\<^verbatim>\<open>obj[i]?.__compat?.support\<close>.\<close>

definition supportOf :: "json \<Rightarrow> json option" where
  "supportOf node =
     (case member node ''__compat'' of
        None \<Rightarrow> None
      | Some c \<Rightarrow> member c ''support'')"

text \<open>The body of the loop for one child, up to the recursive call.\<close>

definition examine :: "env \<Rightarrow> string list \<Rightarrow> json \<Rightarrow> world \<Rightarrow> error + world" where
  "examine E thisIdent node w =
     (let w0 = w\<lparr>examined := examined w @ [thisIdent]\<rparr> in
      case supportOf node of
        None \<Rightarrow> Inr w0
      | Some support \<Rightarrow>
          if truthy support then supportLoop E thisIdent node (objectValues support) w0
          else Inr w0)"

text \<open>
  \<^verbatim>\<open>for (const i in obj)\<close> runs over the entries of an object and over the
  elements of an array under their indices; the characters of a string are no
  objects, and other primitives have no keys.
\<close>

fun traverseFeatures :: "env \<Rightarrow> json \<Rightarrow> string list \<Rightarrow> world \<Rightarrow> error + world"
  and traverseEntries :: "env \<Rightarrow> (string \<times> json) list \<Rightarrow> string list \<Rightarrow> world \<Rightarrow> error + world"
  and traverseElems :: "env \<Rightarrow> json list \<Rightarrow> nat \<Rightarrow> string list \<Rightarrow> world \<Rightarrow> error + world"
where
  "traverseFeatures E (JObj kvs) identifier w = traverseEntries E kvs identifier w"
| "traverseFeatures E (JArr xs) identifier w = traverseElems E xs 0 identifier w"
| "traverseFeatures E JNull identifier w = Inr w"
| "traverseFeatures E (JBool b) identifier w = Inr w"
| "traverseFeatures E (JNum n) identifier w = Inr w"
| "traverseFeatures E (JStr s) identifier w = Inr w"
| "traverseEntries E [] identifier w = Inr w"
| "traverseEntries E ((i, v) # rest) identifier w =
     (if isObjectValue v \<and> i \<noteq> ''__compat'' then
        (case examine E (identifier @ [i]) v w of
           Inl e \<Rightarrow> Inl e
         | Inr w1 \<Rightarrow>
             (case traverseFeatures E v (identifier @ [i]) w1 of
                Inl e \<Rightarrow> Inl e
              | Inr w2 \<Rightarrow> traverseEntries E rest identifier w2))
      else traverseEntries E rest identifier w)"
| "traverseElems E [] n identifier w = Inr w"
| "traverseElems E (v # rest) n identifier w =
     (if isObjectValue v \<and> decimal n \<noteq> ''__compat'' then
        (case examine E (identifier @ [decimal n]) v w of
           Inl e \<Rightarrow> Inl e
         | Inr w1 \<Rightarrow>
             (case traverseFeatures E v (identifier @ [decimal n]) w1 of
                Inl e \<Rightarrow> Inl e
              | Inr w2 \<Rightarrow> traverseElems E rest (n + 1) identifier w2))
      else traverseElems E rest (n + 1) identifier w)"

text \<open>
  The wording of the support rule: a statement supports when its
  \<^verbatim>\<open>version_added\<close> is truthy and its \<^verbatim>\<open>version_removed\<close> is falsy; an
  environment counts when one of its statements does, a single statement
  standing for a sequence of one; a node is supported when it carries a support
  field and one of its environments counts.
\<close>

definition addedNotRemoved :: "json \<Rightarrow> bool" where
  "addedNotRemoved s =
     (truthyOpt (member s ''version_added'') \<and> \<not> truthyOpt (member s ''version_removed''))"

definition environmentCounts :: "json \<Rightarrow> bool" where
  "environmentCounts statements = (\<exists>s \<in> set (statementsOf statements). addedNotRemoved s)"

definition nodeSupported :: "json \<Rightarrow> bool" where
  "nodeSupported node =
     (case supportOf node of
        None \<Rightarrow> False
      | Some support \<Rightarrow> truthy support \<and> (\<exists>st \<in> set (objectValues support). environmentCounts st))"

text \<open>No statement of the node is \<^verbatim>\<open>null\<close> (a support statement is an object
  or the string \<^verbatim>\<open>mirror\<close>).\<close>

definition noNullStatement :: "json \<Rightarrow> bool" where
  "noNullStatement node =
     (case supportOf node of
        None \<Rightarrow> True
      | Some support \<Rightarrow> \<forall>st \<in> set (objectValues support). JNull \<notin> set (statementsOf st))"

text \<open>A node with one environment.\<close>

definition nodeWith :: "string \<Rightarrow> json \<Rightarrow> json" where
  "nodeWith environment statements =
     JObj [(''__compat'', JObj [(''support'', JObj [(environment, statements)])])]"

text \<open>
  The wording of the traversal: the paths, from the root, of the descendants
  that are objects or arrays and are reached through no key \<^verbatim>\<open>__compat\<close>,
  parent before children, children in enumeration order.
\<close>

fun featurePaths :: "json \<Rightarrow> string list list"
  and featurePathsEntries :: "(string \<times> json) list \<Rightarrow> string list list"
  and featurePathsElems :: "json list \<Rightarrow> nat \<Rightarrow> string list list"
where
  "featurePaths (JObj kvs) = featurePathsEntries kvs"
| "featurePaths (JArr xs) = featurePathsElems xs 0"
| "featurePaths JNull = []"
| "featurePaths (JBool b) = []"
| "featurePaths (JNum n) = []"
| "featurePaths (JStr s) = []"
| "featurePathsEntries [] = []"
| "featurePathsEntries ((k, v) # rest) =
     (if isObjectValue v \<and> k \<noteq> ''__compat''
      then [k] # map ((#) k) (featurePaths v) else [])
     @ featurePathsEntries rest"
| "featurePathsElems [] n = []"
| "featurePathsElems (v # rest) n =
     (if isObjectValue v \<and> decimal n \<noteq> ''__compat''
      then [decimal n] # map ((#) (decimal n)) (featurePaths v) else [])
     @ featurePathsElems rest (n + 1)"

text \<open>Concrete surroundings for runs: the example namespaces, the plain join,
  and files written as they are.\<close>

definition exampleEnv :: env where
  "exampleEnv = \<lparr>jsNamespaces = exampleNamespaces, path_join = slashJoin, written_as = (\<lambda>t. t)\<rparr>"

definition emptyWorld :: world where
  "emptyWorld = \<lparr>files = [], examined = []\<rparr>"

section \<open>Case tests\<close>

lemma lower_fold_fixed: "([c] = toLowerCase [c]) = (\<not> isUpperAZ c)"
proof (cases "isUpperAZ c")
  case True
  define n :: nat where "n = of_char c"
  from True have "65 \<le> n" "n \<le> 90" by (simp_all add: isUpperAZ_def n_def)
  then have "(n + 32) mod 256 \<noteq> n" by simp
  then have "(of_char (char_of (n + 32)) :: nat) \<noteq> of_char c"
    by (simp add: n_def)
  then have "char_of (n + 32) \<noteq> c" by blast
  with True show ?thesis by (simp add: toLowerCase_def n_def)
next
  case False
  then show ?thesis by (simp add: toLowerCase_def)
qed

lemma upper_fold_fixed: "([c] = toUpperCase [c]) = (\<not> isLowerAZ c)"
proof (cases "isLowerAZ c")
  case True
  define n :: nat where "n = of_char c"
  from True have "97 \<le> n" "n \<le> 122" by (simp_all add: isLowerAZ_def n_def)
  then have "(n - 32) mod 256 \<noteq> n" by simp
  then have "(of_char (char_of (n - 32)) :: nat) \<noteq> of_char c"
    by (simp add: n_def)
  then have "char_of (n - 32) \<noteq> c" by blast
  with True show ?thesis by (simp add: toUpperCase_def n_def)
next
  case False
  then show ?thesis by (simp add: toUpperCase_def)
qed

lemma startsWithLowerCase_Cons:
  "isAscii c \<Longrightarrow> startsWithLowerCase (c # s) = Inr (\<not> isUpperAZ c)"
  by (simp add: startsWithLowerCase_def lower_fold_fixed)

lemma startsWithUpperCase_Cons:
  "isAscii c \<Longrightarrow> startsWithUpperCase (c # s) = Inr (\<not> isLowerAZ c)"
  by (simp add: startsWithUpperCase_def upper_fold_fixed)

section \<open>Path resolver: results\<close>

text \<open>
  C10. A segment whose first (ASCII) character is no letter passes both case tests, the
  character being its own lowercase and uppercase fold. The lowercase test comes
  first in the resolver, so an \<^verbatim>\<open>api\<close> path with such a second segment goes
  to the \<^verbatim>\<open>api/_globals\<close> directory and a \<^verbatim>\<open>javascript.builtins\<close> path with
  such a third segment goes to \<^verbatim>\<open>javascript/builtins/globals.json\<close>, whatever
  segments follow.
\<close>

theorem nonletter_passes_both_tests:
  assumes "isAscii c" and "\<not> isUpperAZ c" and "\<not> isLowerAZ c"
  shows "toLowerCase [c] = [c] \<and> toUpperCase [c] = [c]
       \<and> startsWithLowerCase (c # s) = Inr True
       \<and> startsWithUpperCase (c # s) = Inr True
       \<and> getFilePath ns pj (''api'' # (c # s) # others)
           = Inr (pj [''api'', ''_globals'', (c # s) @ ''.json''])
       \<and> getFilePath ns pj (''javascript'' # ''builtins'' # (c # s) # others)
           = Inr ''javascript/builtins/globals.json''"
proof -
  have folds: "toLowerCase [c] = [c]" "toUpperCase [c] = [c]"
    using assms by (simp_all add: toLowerCase_def toUpperCase_def)
  have tests: "startsWithLowerCase (c # s) = Inr True" "startsWithUpperCase (c # s) = Inr True"
    using assms by (simp_all add: startsWithLowerCase_Cons startsWithUpperCase_Cons)
  have api: "getFilePath ns pj (''api'' # (c # s) # others)
               = Inr (pj [''api'', ''_globals'', (c # s) @ ''.json''])"
    using tests(1) by (simp add: getFilePath_def addJsonSuffix_def)
  have js: "getFilePath ns pj (''javascript'' # ''builtins'' # (c # s) # others)
               = Inr ''javascript/builtins/globals.json''"
    using tests(1) by (simp add: getFilePath_def)
  from folds tests api js show ?thesis by simp
qed

theorem nonletter_passes_both_tests_witness:
  "isAscii CHR ''_'' \<and> \<not> isUpperAZ CHR ''_'' \<and> \<not> isLowerAZ CHR ''_''
   \<and> startsWithLowerCase ''_x'' = Inr True \<and> startsWithUpperCase ''_x'' = Inr True
   \<and> getFilePath exampleNamespaces slashJoin [''api'', ''_x'', ''y'']
       = Inr ''api/_globals/_x.json''
   \<and> getFilePath exampleNamespaces slashJoin [''javascript'', ''builtins'', ''_x'', ''y'']
       = Inr ''javascript/builtins/globals.json''"
proof -
  have a: "isAscii CHR ''_''" and u: "\<not> isUpperAZ CHR ''_''" and l: "\<not> isLowerAZ CHR ''_''"
    by (simp_all add: isAscii_def isUpperAZ_def isLowerAZ_def)
  show ?thesis
    using a u l nonletter_passes_both_tests [OF a u l, of "''x''" exampleNamespaces slashJoin "[''y'']"]
    by (simp add: slashJoin_def)
qed

text \<open>
  C4. A path that no area rule matches (unknown first segment, or too short for
  its area) makes the resolver throw, and the message ends with the segments of
  the whole path joined by dots.
\<close>

theorem no_rule_throws_with_dotted_path:
  assumes "\<not> areaRuleApplies ident"
  shows "getFilePath ns pj ident
           = Inl (Error (''Cannot determine file path from BCD path: '' @ js_join ''.'' ident))"
proof -
  have a: "\<not> (2 \<le> length ident \<and> ident ! 0 = ''api'')"
    using assms by (cases ident) (auto simp: areaRuleApplies_def)
  have b: "\<not> (3 \<le> length ident \<and> ident ! 0 \<in> set [''css'', ''html'', ''svg'', ''mathml''])"
    using assms by (cases ident) (auto simp: areaRuleApplies_def)
  have c: "\<not> (3 \<le> length ident \<and> ident ! 0 = ''javascript'' \<and> ident ! 1 = ''builtins'')"
    using assms by (cases ident; cases "tl ident") (auto simp: areaRuleApplies_def)
  have d: "\<not> (2 \<le> length ident \<and> ident ! 0 = ''webassembly'')"
    using assms by (cases ident) (auto simp: areaRuleApplies_def)
  show ?thesis
    unfolding getFilePath_def Let_def using a b c d by (simp only: if_False)
qed

theorem no_rule_throws_with_dotted_path_witness:
  "\<not> areaRuleApplies [''api''] \<and> \<not> areaRuleApplies [''css'', ''x'']
   \<and> \<not> areaRuleApplies [''unknownarea'', ''x'']
   \<and> getFilePath exampleNamespaces slashJoin [''api'']
       = Inl (Error ''Cannot determine file path from BCD path: api'')
   \<and> getFilePath exampleNamespaces slashJoin [''css'', ''x'']
       = Inl (Error ''Cannot determine file path from BCD path: css.x'')
   \<and> getFilePath exampleNamespaces slashJoin [''unknownarea'', ''x'']
       = Inl (Error ''Cannot determine file path from BCD path: unknownarea.x'')"
proof -
  have n1: "\<not> areaRuleApplies [''api'']" and n2: "\<not> areaRuleApplies [''css'', ''x'']"
    and n3: "\<not> areaRuleApplies [''unknownarea'', ''x'']"
    by (simp_all add: areaRuleApplies_def)
  show ?thesis
    using n1 n2 n3
      no_rule_throws_with_dotted_path [OF n1, of exampleNamespaces slashJoin]
      no_rule_throws_with_dotted_path [OF n2, of exampleNamespaces slashJoin]
      no_rule_throws_with_dotted_path [OF n3, of exampleNamespaces slashJoin]
    by simp
qed

text \<open>
  C2, at the input \<^verbatim>\<open>javascript.builtins.Intl.@@toStringTag\<close>: the fourth
  segment starts with \<^verbatim>\<open>@\<close>, which is no uppercase letter, and the resolver
  still keeps four segments.
\<close>

theorem namespace_member_nonletter_kept:
  "getFilePath exampleNamespaces slashJoin [''javascript'', ''builtins'', ''Intl'', ''@@toStringTag'']
     = Inr ''javascript/builtins/Intl/@@toStringTag.json''"
  by (simp add: getFilePath_def startsWithLowerCase_Cons startsWithUpperCase_Cons
      isAscii_def isUpperAZ_def isLowerAZ_def addJsonSuffix_def slashJoin_def exampleNamespaces_def)

text \<open>
  C3, at the input \<^verbatim>\<open>api._x\<close>: the second segment starts with no lowercase
  letter, and the resolver still files it under \<^verbatim>\<open>api/_globals\<close>.
\<close>

theorem api_nonletter_filed_as_global:
  "getFilePath exampleNamespaces slashJoin [''api'', ''_x'']
     = Inr ''api/_globals/_x.json''"
  by (simp add: getFilePath_def startsWithLowerCase_Cons isAscii_def isUpperAZ_def
      addJsonSuffix_def slashJoin_def)

section \<open>Tree merge: results\<close>

lemma addPath_obj:
  "addPath (part # rest) (JObj kvs) obj =
     (case childResult part rest (map_of kvs part) obj of
        Inl e \<Rightarrow> Inl e
      | Inr r \<Rightarrow> Inr (JObj (AList.update part r kvs)))"
  by (cases rest) (auto simp: childResult_def)

lemma addPath_not_obj:
  "(\<And>kvs. data \<noteq> JObj kvs) \<Longrightarrow> \<exists>e. addPath (part # rest) data obj = Inl e"
  by (cases rest; cases data) auto

lemma recursiveAdd_addPath:
  "i < length ident \<Longrightarrow> recursiveAdd ident i data obj = addPath (drop i ident) data obj"
proof (induction ident i data obj rule: recursiveAdd.induct)
  case (1 ident i data obj)
  have d: "drop i ident = ident ! i # drop (i + 1) ident"
    using "1.prems" by (simp add: Cons_nth_drop_Suc)
  show ?case
  proof (cases "i + 1 < length ident")
    case True
    then have ne: "drop (i + 1) ident \<noteq> []" by simp
    show ?thesis
    proof (cases data)
      case (JObj kvs)
      let ?child = "case map_of kvs (ident ! i) of Some v \<Rightarrow> v | None \<Rightarrow> JObj []"
      show ?thesis
      proof (cases "ident ! i \<in> set objectPrototypeKeys \<and> map_of kvs (ident ! i) = None")
        case inh: True
        have "recursiveAdd ident i data obj = Inl Unmodelled"
          using True JObj "1.prems" inh by (subst recursiveAdd.simps) (auto simp: Let_def)
        moreover have "addPath (drop i ident) data obj = Inl Unmodelled"
          using inh ne by (auto simp: d JObj addPath_obj childResult_def)
        ultimately show ?thesis by simp
      next
        case False
        have ih: "recursiveAdd ident (i + 1) ?child obj = addPath (drop (i + 1) ident) ?child obj"
          using "1.IH" [of "ident ! i" kvs] True JObj False "1.prems" by simp
        have "recursiveAdd ident i data obj =
                (case recursiveAdd ident (i + 1) ?child obj of
                   Inl e \<Rightarrow> Inl e | Inr r \<Rightarrow> Inr (JObj (AList.update (ident ! i) r kvs)))"
          using True JObj False "1.prems" by (subst recursiveAdd.simps) (auto simp: Let_def)
        moreover have "addPath (drop i ident) data obj =
                (case addPath (drop (i + 1) ident) ?child obj of
                   Inl e \<Rightarrow> Inl e | Inr r \<Rightarrow> Inr (JObj (AList.update (ident ! i) r kvs)))"
          using False ne by (auto simp: d JObj addPath_obj childResult_def)
        ultimately show ?thesis using ih by simp
      qed
    next
      case JNull
      then show ?thesis using True "1.prems" ne
        by (subst recursiveAdd.simps) (cases "drop (i + 1) ident"; simp add: d Let_def)
    next
      case (JBool x)
      then show ?thesis using True "1.prems" ne
        by (subst recursiveAdd.simps) (cases "drop (i + 1) ident"; simp add: d Let_def)
    next
      case (JNum x)
      then show ?thesis using True "1.prems" ne
        by (subst recursiveAdd.simps) (cases "drop (i + 1) ident"; simp add: d Let_def)
    next
      case (JStr x)
      then show ?thesis using True "1.prems" ne
        by (subst recursiveAdd.simps) (cases "drop (i + 1) ident"; simp add: d Let_def)
    next
      case (JArr x)
      then show ?thesis using True "1.prems" ne
        by (subst recursiveAdd.simps) (cases "drop (i + 1) ident"; simp add: d Let_def)
    qed
  next
    case False
    with "1.prems" have e: "drop (i + 1) ident = []" by simp
    show ?thesis
      using False "1.prems" by (subst recursiveAdd.simps) (simp add: d e Let_def)
  qed
qed



lemma thenAdd_simps [simp]:
  "thenAdd (Inl e) q b = Inl e" "thenAdd (Inr t) q b = addPath q t b"
  by (simp_all add: thenAdd_def)

lemma same_outcome_simps [simp]:
  "same_outcome (Inl e) (Inl e') = True"
  "same_outcome (Inl e) (Inr y) = False"
  "same_outcome (Inr x) (Inl e') = False"
  "same_outcome (Inr x) (Inr y) = same_tree x y"
  by (simp_all add: same_outcome_def)


lemma recursiveAdd_0: "p \<noteq> [] \<Longrightarrow> recursiveAdd p 0 t a = addPath p t a"
  using recursiveAdd_addPath [of 0 p t a] by simp

lemma object_assign_obj: "object_assign a = Inr c \<Longrightarrow> \<exists>kvs. c = JObj kvs"
  by (auto simp: object_assign_def split: json.splits if_splits)

lemma addPath_stores_copy:
  "p \<noteq> [] \<Longrightarrow> addPath p t a = Inr t1 \<Longrightarrow> \<exists>c. object_assign a = Inr c \<and> getPath p t1 = Some c"
proof (induction p arbitrary: t t1)
  case Nil
  then show ?case by simp
next
  case (Cons k ps)
  from Cons.prems(2) obtain kvs where t: "t = JObj kvs"
    using addPath_not_obj [of t k ps a] by fastforce
  from Cons.prems(2) obtain r where r: "childResult k ps (map_of kvs k) a = Inr r"
    and t1: "t1 = JObj (AList.update k r kvs)"
    by (auto simp: t addPath_obj split: sum.splits)
  show ?case
  proof (cases "ps = []")
    case True
    with r show ?thesis by (auto simp: t1 childResult_def update_conv' split: if_splits)
  next
    case False
    with r have "addPath ps (case map_of kvs k of Some c \<Rightarrow> c | None \<Rightarrow> JObj []) a = Inr r"
      by (auto simp: childResult_def split: if_splits)
    from Cons.IH [OF False this] show ?thesis by (auto simp: t1 update_conv')
  qed
qed

lemma addPath_below:
  "getPath p t = Some s \<Longrightarrow> q' \<noteq> [] \<Longrightarrow>
   (case addPath (p @ q') t b of
      Inl e \<Rightarrow> addPath q' s b = Inl e
    | Inr t2 \<Rightarrow> \<exists>s'. addPath q' s b = Inr s' \<and> getPath p t2 = Some s')"
proof (induction p arbitrary: t)
  case Nil
  then show ?case by (auto split: sum.splits)
next
  case (Cons k ps)
  from Cons.prems(1) obtain kvs v where t: "t = JObj kvs" and v: "map_of kvs k = Some v"
    and g: "getPath ps v = Some s"
    by (cases t) (auto split: option.splits)
  have ne: "ps @ q' \<noteq> []" using Cons.prems(2) by simp
  have eq: "addPath ((k # ps) @ q') t b =
              (case addPath (ps @ q') v b of Inl e \<Rightarrow> Inl e
               | Inr r \<Rightarrow> Inr (JObj (AList.update k r kvs)))"
    using ne v by (auto simp: t addPath_obj childResult_def)
  from Cons.IH [OF g Cons.prems(2)] show ?case
    unfolding eq by (auto simp: update_conv' split: sum.splits)
qed



text \<open>
  C6, as stated, fails: a leaf merged at \<open>a\<close> is not replaced when
  \<open>a.b\<close> is merged afterwards. The entry \<open>x\<close> of the leaf is still
  there next to the new key \<open>b\<close>, and a leaf that already holds what the
  longer path brings is found unchanged.
\<close>

theorem prefix_leaf_not_replaced:
  "valueAt [''a'']
     (mergeTwo [''a''] (JObj [(''x'', JNum 1)]) [''a'', ''b''] (JObj [(''y'', JNum 2)]) (JObj []))
     = Some (JObj [(''x'', JNum 1), (''b'', JObj [(''y'', JNum 2)])])
   \<and> valueAt [''a'', ''x'']
     (mergeTwo [''a''] (JObj [(''x'', JNum 1)]) [''a'', ''b''] (JObj [(''y'', JNum 2)]) (JObj []))
     = Some (JNum 1)
   \<and> valueAt [''a'']
     (mergeTwo [''a''] (JObj [(''b'', JObj [(''y'', JNum 2)])]) [''a'', ''b''] (JObj [(''y'', JNum 2)]) (JObj []))
     = Some (JObj [(''b'', JObj [(''y'', JNum 2)])])"
  by code_simp

text \<open>
  C6, amended. After a leaf \<open>a\<close> was merged at a non-empty path \<open>p\<close>, the
  value at \<open>p\<close> is the copy of \<open>a\<close>. Merging \<open>b\<close> at the longer path
  \<open>p @ k # rest\<close> then continues inside that copy: it throws exactly when
  the merge of \<open>k # rest\<close> into the copy throws, and otherwise the value at
  \<open>p\<close> is the copy with the entry \<open>k\<close> set to the merged subtree, every
  other entry of the leaf kept.
\<close>

theorem longer_path_extends_prefix_leaf:
  assumes "p \<noteq> []" and "recursiveAdd p 0 t a = Inr t1"
  shows "\<exists>kvs. object_assign a = Inr (JObj kvs) \<and> getPath p t1 = Some (JObj kvs)
          \<and> (case recursiveAdd (p @ k # rest) 0 t1 b of
               Inl e \<Rightarrow> childResult k rest (map_of kvs k) b = Inl e
             | Inr t2 \<Rightarrow> \<exists>r. childResult k rest (map_of kvs k) b = Inr r
                          \<and> getPath p t2 = Some (JObj (AList.update k r kvs)))"
proof -
  from assms have "addPath p t a = Inr t1" by (simp add: recursiveAdd_0)
  from addPath_stores_copy [OF assms(1) this] object_assign_obj
  obtain kvs where c: "object_assign a = Inr (JObj kvs)" and g: "getPath p t1 = Some (JObj kvs)"
    by blast
  have r: "recursiveAdd (p @ k # rest) 0 t1 b = addPath (p @ k # rest) t1 b"
    by (simp add: recursiveAdd_0)
  have "case addPath (p @ k # rest) t1 b of
          Inl e \<Rightarrow> addPath (k # rest) (JObj kvs) b = Inl e
        | Inr t2 \<Rightarrow> \<exists>s'. addPath (k # rest) (JObj kvs) b = Inr s' \<and> getPath p t2 = Some s'"
    using addPath_below [OF g, of "k # rest" b] by simp
  then have "case recursiveAdd (p @ k # rest) 0 t1 b of
               Inl e \<Rightarrow> childResult k rest (map_of kvs k) b = Inl e
             | Inr t2 \<Rightarrow> \<exists>r. childResult k rest (map_of kvs k) b = Inr r
                          \<and> getPath p t2 = Some (JObj (AList.update k r kvs))"
    unfolding r by (auto simp: addPath_obj split: sum.splits)
  with c g show ?thesis by blast
qed

theorem longer_path_extends_prefix_leaf_witness:
  "[''a''] \<noteq> [] \<and> recursiveAdd [''a''] 0 (JObj []) (JObj [(''x'', JNum 1)]) = Inr (JObj [(''a'', JObj [(''x'', JNum 1)])])
   \<and> (\<exists>kvs. object_assign (JObj [(''x'', JNum 1)]) = Inr (JObj kvs)
          \<and> getPath [''a''] (JObj [(''a'', JObj [(''x'', JNum 1)])]) = Some (JObj kvs)
          \<and> (case recursiveAdd ([''a''] @ ''b'' # []) 0 (JObj [(''a'', JObj [(''x'', JNum 1)])]) (JObj [(''y'', JNum 2)]) of
               Inl e \<Rightarrow> childResult ''b'' [] (map_of kvs ''b'') (JObj [(''y'', JNum 2)]) = Inl e
             | Inr t2 \<Rightarrow> \<exists>r. childResult ''b'' [] (map_of kvs ''b'') (JObj [(''y'', JNum 2)]) = Inr r
                          \<and> getPath [''a''] t2 = Some (JObj (AList.update ''b'' r kvs))))"
proof -
  have h1: "[''a''] \<noteq> ([] :: string list)" by simp
  have h2: "recursiveAdd [''a''] 0 (JObj []) (JObj [(''x'', JNum 1)]) = Inr (JObj [(''a'', JObj [(''x'', JNum 1)])])"
    by code_simp
  show ?thesis
    using h1 h2 longer_path_extends_prefix_leaf [OF h1 h2, of "''b''" "[]" "JObj [(''y'', JNum 2)]"]
    by blast
qed

text \<open>Being the same tree is an equivalence: reflexive (above), symmetric and
  transitive.\<close>

lemma same_tree_objD:
  assumes "same_tree (JObj xs) b"
  shows "\<exists>ys. b = JObj ys \<and> dom (map_of xs) = dom (map_of ys) \<and>
        (\<forall>k a. map_of xs k = Some a \<longrightarrow> (\<exists>c. map_of ys k = Some c \<and> same_tree a c))"
proof -
  from assms obtain ys where b: "b = JObj ys" by (cases b) auto
  from assms have keys: "set (map fst xs) = set (map fst ys)"
    and vals: "\<forall>(k, a) \<in> set xs. map_of xs k = Some a \<longrightarrow>
         (case map_of ys k of Some c \<Rightarrow> same_tree a c | None \<Rightarrow> False)"
    unfolding b by simp_all
  have "dom (map_of xs) = dom (map_of ys)"
    using keys by (simp add: dom_map_of_conv_image_fst)
  moreover have "\<exists>c. map_of ys k = Some c \<and> same_tree a c" if "map_of xs k = Some a" for k a
  proof -
    have "(k, a) \<in> set xs" using that by (rule map_of_SomeD)
    with vals that have "case map_of ys k of Some c \<Rightarrow> same_tree a c | None \<Rightarrow> False"
      by blast
    then show ?thesis by (cases "map_of ys k") simp_all
  qed
  ultimately show ?thesis using b by blast
qed

lemma same_tree_objI:
  "dom (map_of xs) = dom (map_of ys) \<Longrightarrow>
   (\<And>k a. map_of xs k = Some a \<Longrightarrow> \<exists>c. map_of ys k = Some c \<and> same_tree a c) \<Longrightarrow>
   same_tree (JObj xs) (JObj ys)"
proof -
  assume d: "dom (map_of xs) = dom (map_of ys)"
    and v: "\<And>k a. map_of xs k = Some a \<Longrightarrow> \<exists>c. map_of ys k = Some c \<and> same_tree a c"
  have "set (map fst xs) = set (map fst ys)"
    using d by (simp add: dom_map_of_conv_image_fst)
  moreover have "case map_of ys k of Some c \<Rightarrow> same_tree a c | None \<Rightarrow> False"
    if "map_of xs k = Some a" for k a
    using v [OF that] by auto
  ultimately show ?thesis by auto
qed

lemma same_tree_sym: "same_tree a b \<Longrightarrow> same_tree b a"
proof (induction a arbitrary: b)
  case (JArr xs)
  then obtain ys where b: "b = JArr ys" and l: "list_all2 same_tree xs ys"
    by (cases b) auto
  have "list_all2 same_tree ys xs"
    unfolding list_all2_conv_all_nth
  proof (intro conjI allI impI)
    show "length ys = length xs" using l by (simp add: list_all2_lengthD)
    fix i assume "i < length ys"
    then have i: "i < length xs" using l by (simp add: list_all2_lengthD)
    then have "same_tree (xs ! i) (ys ! i)" using l by (simp add: list_all2_nthD)
    then show "same_tree (ys ! i) (xs ! i)" using JArr.IH [of "xs ! i" "ys ! i"] i by simp
  qed
  then show ?case by (simp add: b)
next
  case (JObj xs)
  from same_tree_objD [OF JObj.prems] obtain ys where b: "b = JObj ys"
    and d: "dom (map_of xs) = dom (map_of ys)"
    and v: "\<And>k a. map_of xs k = Some a \<Longrightarrow> \<exists>c. map_of ys k = Some c \<and> same_tree a c"
    by blast
  have "\<exists>a. map_of xs k = Some a \<and> same_tree c a" if "map_of ys k = Some c" for k c
  proof -
    from that d obtain a where a: "map_of xs k = Some a" by (metis domD domI)
    with v that have "same_tree a c" by fastforce
    moreover have "(k, a) \<in> set xs" using a by (rule map_of_SomeD)
    ultimately have "same_tree c a" using JObj.IH [of "(k, a)" a c] by simp
    with a show ?thesis by blast
  qed
  then show ?case unfolding b using d by (intro same_tree_objI) auto
qed auto

lemma same_tree_trans: "same_tree a b \<Longrightarrow> same_tree b c \<Longrightarrow> same_tree a c"
proof (induction a arbitrary: b c)
  case (JArr xs)
  then obtain ys where b: "b = JArr ys" and l: "list_all2 same_tree xs ys"
    by (cases b) auto
  with JArr.prems(2) obtain zs where c: "c = JArr zs" and l2: "list_all2 same_tree ys zs"
    by (cases c) auto
  have "list_all2 same_tree xs zs"
    unfolding list_all2_conv_all_nth
  proof (intro conjI allI impI)
    show "length xs = length zs" using l l2 by (simp add: list_all2_lengthD)
    fix i assume i: "i < length xs"
    then have "same_tree (xs ! i) (ys ! i)" using l by (simp add: list_all2_nthD)
    moreover have "same_tree (ys ! i) (zs ! i)" using l l2 i by (simp add: list_all2_nthD2 list_all2_lengthD)
    ultimately show "same_tree (xs ! i) (zs ! i)" using JArr.IH [of "xs ! i" "ys ! i" "zs ! i"] i by simp
  qed
  then show ?case by (simp add: c)
next
  case (JObj xs)
  from same_tree_objD [OF JObj.prems(1)] obtain ys where b: "b = JObj ys"
    and d: "dom (map_of xs) = dom (map_of ys)"
    and v: "\<And>k a. map_of xs k = Some a \<Longrightarrow> \<exists>c. map_of ys k = Some c \<and> same_tree a c"
    by blast
  from same_tree_objD [OF JObj.prems(2) [unfolded b]] obtain zs where c: "c = JObj zs"
    and d2: "dom (map_of ys) = dom (map_of zs)"
    and v2: "\<And>k a. map_of ys k = Some a \<Longrightarrow> \<exists>c. map_of zs k = Some c \<and> same_tree a c"
    by blast
  have "\<exists>z. map_of zs k = Some z \<and> same_tree a z" if a: "map_of xs k = Some a" for k a
  proof -
    from v [OF a] obtain y where y: "map_of ys k = Some y" "same_tree a y" by blast
    from v2 [OF y(1)] obtain z where z: "map_of zs k = Some z" "same_tree y z" by blast
    have "(k, a) \<in> set xs" using a by (rule map_of_SomeD)
    then have "same_tree a z" using JObj.IH [of "(k, a)" a y z] y(2) z(2) by simp
    with z(1) show ?thesis by blast
  qed
  then show ?case unfolding c using d d2 by (intro same_tree_objI) auto
qed auto

section \<open>Tree merge on a store: results\<close>

lemma length_assignField [simp]: "length (assignField h a k v) = length h"
  by (simp add: assignField_def split: hobj.splits)

lemma field_append: "a < length h \<Longrightarrow> field (h @ xs) a k = field h a k"
  by (simp add: field_def nth_append)

lemma field_fresh [simp]: "field (h @ [HObj []]) (length h) k = None"
  by (simp add: field_def)

lemma field_assignField:
  "a < length h \<Longrightarrow>
   field (assignField h a k v) a0 k0 =
     (if a0 = a \<and> k0 = k \<and> (\<exists>kvs. h ! a = HObj kvs) then Some v else field h a0 k0)"
  by (auto simp: field_def assignField_def update_conv' nth_list_update split: hobj.splits)

lemma nth_assignField_other: "a0 \<noteq> a \<Longrightarrow> assignField h a k v ! a0 = h ! a0"
  by (simp add: assignField_def split: hobj.splits)

lemma addPath_store_step:
  assumes "rest \<noteq> []"
  shows "addPath_store (part # rest) h data obj =
     (case data of
        VRef a \<Rightarrow>
          if a < length h then
            (case h ! a of
               HObj kvs \<Rightarrow>
                 if part \<in> set objectPrototypeKeys \<and> map_of kvs part = None then Inl Unmodelled
                 else
                   (case (case map_of kvs part of
                            Some v \<Rightarrow> addPath_store rest h v obj
                          | None \<Rightarrow> addPath_store rest (h @ [HObj []]) (VRef (length h)) obj) of
                      Inl e \<Rightarrow> Inl e
                    | Inr (h2, r) \<Rightarrow> Inr (assignField h2 a part r, data))
             | HArr xs \<Rightarrow> Inl Unmodelled)
          else Inl Unmodelled
      | _ \<Rightarrow> Inl TypeError)"
proof (cases rest)
  case Nil
  with assms show ?thesis by simp
next
  case (Cons x xs)
  show ?thesis unfolding Cons by simp
qed

text \<open>What a successful step looks like.\<close>

lemma addPath_store_last_cases:
  assumes "addPath_store [k] h d l = Inr (h', r)"
  obtains a kvs es where "d = VRef a" "a < length h" "h ! a = HObj kvs"
    "\<not> (k = ''__proto__'' \<and> map_of kvs k = None)"
    "copyEntries h l = Inr es" "h' = assignField (h @ [HObj es]) a k (VRef (length h))" "r = d"
  using assms
  by (auto simp: object_assign_store_def split: val.splits if_splits hobj.splits sum.splits)

lemma addPath_store_step_cases:
  assumes "addPath_store (k # ks) h d l = Inr (h', r)" and "ks \<noteq> []"
  obtains a kvs h1 v h2 r2 where "d = VRef a" "a < length h" "h ! a = HObj kvs"
    "\<not> (k \<in> set objectPrototypeKeys \<and> map_of kvs k = None)"
    "(map_of kvs k = Some v \<and> h1 = h) \<or> (map_of kvs k = None \<and> h1 = h @ [HObj []] \<and> v = VRef (length h))"
    "addPath_store ks h1 v l = Inr (h2, r2)" "h' = assignField h2 a k r2" "r = d"
  using assms
  by (auto simp: addPath_store_step split: val.splits if_splits hobj.splits sum.splits option.splits)

lemma addPath_store_returns_data:
  "addPath_store ps h d l = Inr (h', r) \<Longrightarrow> r = d \<and> length h \<le> length h'"
proof (induction ps arbitrary: h d h' r)
  case Nil
  then show ?case by simp
next
  case (Cons k ks)
  show ?case
  proof (cases "ks = []")
    case True
    from Cons.prems [unfolded True] show ?thesis
      by (rule addPath_store_last_cases) simp
  next
    case False
    from Cons.prems False obtain a kvs h1 v h2 r2 where
      s: "d = VRef a" "a < length h" "h ! a = HObj kvs"
      "(map_of kvs k = Some v \<and> h1 = h) \<or> (map_of kvs k = None \<and> h1 = h @ [HObj []] \<and> v = VRef (length h))"
      "addPath_store ks h1 v l = Inr (h2, r2)" "h' = assignField h2 a k r2" "r = d"
      by (elim addPath_store_step_cases)
    from Cons.IH [OF s(5)] have "length h1 \<le> length h2" by simp
    moreover from s(4) have "length h \<le> length h1" by auto
    ultimately show ?thesis using s by simp
  qed
qed

lemma addPath_store_frame:
  "addPath_store ps h d l = Inr (h', r) \<Longrightarrow> a0 < length h \<Longrightarrow> (a0, k0) \<notin> set (walk h d ps) \<Longrightarrow>
   field h' a0 k0 = field h a0 k0"
proof (induction ps arbitrary: h d h' r)
  case Nil
  then show ?case by simp
next
  case (Cons k ks)
  show ?case
  proof (cases "ks = []")
    case True
    from Cons.prems(1) [unfolded True] show ?thesis
    proof (rule addPath_store_last_cases)
      fix a kvs es
      assume s: "d = VRef a" "a < length h" "h ! a = HObj kvs"
        "h' = assignField (h @ [HObj es]) a k (VRef (length h))"
      with Cons.prems(2,3) show ?thesis
        by (auto simp: field_assignField field_append nth_append)
    qed
  next
    case False
    from Cons.prems(1) False obtain a kvs h1 v h2 r2 where
      s: "d = VRef a" "a < length h" "h ! a = HObj kvs"
      "(map_of kvs k = Some v \<and> h1 = h) \<or> (map_of kvs k = None \<and> h1 = h @ [HObj []] \<and> v = VRef (length h))"
      "addPath_store ks h1 v l = Inr (h2, r2)" "h' = assignField h2 a k r2" "r = d"
      by (elim addPath_store_step_cases)
    have len: "length h \<le> length h1" "length h1 \<le> length h2"
      using s(4) addPath_store_returns_data [OF s(5)] by auto
    have fk: "field h a k = map_of kvs k" using s(2,3) by (simp add: field_def)
    have notin: "(a0, k0) \<notin> set (walk h1 v ks)"
    proof (cases "map_of kvs k")
      case None
      with s(4) have "h1 = h @ [HObj []]" "v = VRef (length h)" by auto
      then show ?thesis using Cons.prems(2) by (cases ks) (auto split: option.splits)
    next
      case (Some w)
      with s(4) have "h1 = h" "v = w" by auto
      then show ?thesis using Cons.prems(3) Some by (simp add: s(1) fk)
    qed
    have "field h2 a0 k0 = field h1 a0 k0"
      using Cons.IH [OF s(5) _ notin] Cons.prems(2) len by simp
    moreover have "field h1 a0 k0 = field h a0 k0"
      using s(4) Cons.prems(2) by (auto simp: field_append)
    moreover have "(a0, k0) \<noteq> (a, k)" using Cons.prems(3) by (simp add: s(1))
    ultimately show ?thesis
      using s(2) len by (auto simp: s(6) field_assignField)
  qed
qed

lemma copyEntries_append: "copyEntries h l = Inr es \<Longrightarrow> copyEntries (h @ xs) l = Inr es"
  by (auto simp: copyEntries_def nth_append split: val.splits if_splits hobj.splits)

lemma plainPath_fresh: "freshPath ks \<Longrightarrow> plainPath (h @ [HObj []]) (VRef (length h)) ks"
proof (cases ks)
  case Nil
  then show ?thesis by simp
next
  case (Cons k rest)
  assume "freshPath ks"
  then show ?thesis unfolding Cons by (cases rest) simp_all
qed

lemma plainPath_last:
  "plainPath h d [k] =
     (\<exists>a kvs. d = VRef a \<and> a < length h \<and> h ! a = HObj kvs \<and> \<not> (k = ''__proto__'' \<and> map_of kvs k = None))"
  by (cases d) (auto split: hobj.splits)

lemma plainPath_step:
  assumes "ks \<noteq> []"
  shows "plainPath h d (k # ks) =
     (\<exists>a kvs. d = VRef a \<and> a < length h \<and> h ! a = HObj kvs \<and>
        (case map_of kvs k of Some v \<Rightarrow> plainPath h v ks
         | None \<Rightarrow> k \<notin> set objectPrototypeKeys \<and> freshPath ks))"
proof (cases ks)
  case Nil
  with assms show ?thesis by simp
next
  case (Cons x xs)
  show ?thesis unfolding Cons by (cases d) (auto split: hobj.splits)
qed

lemma addPath_store_succeeds:
  "ps \<noteq> [] \<Longrightarrow> plainPath h d ps \<Longrightarrow> copyEntries h l = Inr es \<Longrightarrow>
   \<exists>h'. addPath_store ps h d l = Inr (h', d)"
proof (induction ps arbitrary: h d)
  case Nil
  then show ?case by simp
next
  case (Cons k ks)
  show ?case
  proof (cases "ks = []")
    case True
    with Cons.prems show ?thesis
      by (auto simp: plainPath_last object_assign_store_def)
  next
    case False
    from Cons.prems(2) False obtain a kvs where s: "d = VRef a" "a < length h" "h ! a = HObj kvs"
      and sub: "case map_of kvs k of Some v \<Rightarrow> plainPath h v ks
                | None \<Rightarrow> k \<notin> set objectPrototypeKeys \<and> freshPath ks"
      by (auto simp: plainPath_step)
    show ?thesis
    proof (cases "map_of kvs k")
      case None
      with sub have f: "k \<notin> set objectPrototypeKeys" "freshPath ks" by auto
      from Cons.IH [OF False plainPath_fresh [OF f(2)] copyEntries_append [OF Cons.prems(3)]]
      obtain h2 where "addPath_store ks (h @ [HObj []]) (VRef (length h)) l = Inr (h2, VRef (length h))"
        by blast
      then show ?thesis using s None f False by (simp add: addPath_store_step)
    next
      case (Some v)
      with sub have "plainPath h v ks" by simp
      from Cons.IH [OF False this Cons.prems(3)]
      obtain h2 where "addPath_store ks h v l = Inr (h2, v)" by blast
      then show ?thesis using s Some False by (simp add: addPath_store_step)
    qed
  qed
qed

lemma addPath_store_untouched:
  "addPath_store ps h d l = Inr (h', r) \<Longrightarrow> a0 < length h \<Longrightarrow> a0 \<notin> fst ` set (walk h d ps) \<Longrightarrow>
   h' ! a0 = h ! a0"
proof (induction ps arbitrary: h d h' r)
  case Nil
  then show ?case by simp
next
  case (Cons k ks)
  show ?case
  proof (cases "ks = []")
    case True
    from Cons.prems(1) [unfolded True] show ?thesis
    proof (rule addPath_store_last_cases)
      fix a kvs es
      assume s: "d = VRef a" "a < length h" "h ! a = HObj kvs"
        "h' = assignField (h @ [HObj es]) a k (VRef (length h))"
      with Cons.prems(2,3) show ?thesis
        by (auto simp: nth_assignField_other nth_append)
    qed
  next
    case False
    from Cons.prems(1) False obtain a kvs h1 v h2 r2 where
      s: "d = VRef a" "a < length h" "h ! a = HObj kvs"
      "(map_of kvs k = Some v \<and> h1 = h) \<or> (map_of kvs k = None \<and> h1 = h @ [HObj []] \<and> v = VRef (length h))"
      "addPath_store ks h1 v l = Inr (h2, r2)" "h' = assignField h2 a k r2" "r = d"
      by (elim addPath_store_step_cases)
    have len: "length h \<le> length h1"
      using s(4) by auto
    have fk: "field h a k = map_of kvs k" using s(2,3) by (simp add: field_def)
    have notin: "a0 \<notin> fst ` set (walk h1 v ks)"
      using s(4) Cons.prems(2,3) by (cases ks) (auto simp: s(1) fk split: option.splits)
    have "h2 ! a0 = h1 ! a0"
      using Cons.IH [OF s(5) _ notin] Cons.prems(2) len by simp
    moreover have "h1 ! a0 = h ! a0"
      using s(4) Cons.prems(2) by (auto simp: nth_append)
    moreover have "a0 \<noteq> a" using Cons.prems(3) by (simp add: s(1))
    ultimately show ?thesis
      by (simp add: s(6) nth_assignField_other)
  qed
qed

lemma addPath_store_copy:
  assumes "addPath_store ps h d l = Inr (h', r)" and "ps \<noteq> []"
    and "distinct (map fst (walk h d ps))" and "copyEntries h l = Inr es"
  shows "\<exists>c. length h \<le> c \<and> c < length h' \<and> h' ! c = HObj es \<and>
           (\<forall>g. length g = length h' \<longrightarrow>
                (\<forall>b<length g. length h \<le> b \<or> b \<in> fst ` set (walk h d ps) \<longrightarrow> g ! b = h' ! b) \<longrightarrow>
                getPath_store g d ps = Some (VRef c))"
  using assms
proof (induction ps arbitrary: h d h' r)
  case Nil
  then show ?case by simp
next
  case (Cons k ks)
  show ?case
  proof (cases "ks = []")
    case True
    from Cons.prems(1) [unfolded True] show ?thesis
    proof (rule addPath_store_last_cases)
      fix a kvs es'
      assume s: "d = VRef a" "a < length h" "h ! a = HObj kvs"
        "copyEntries h l = Inr es'"
        "h' = assignField (h @ [HObj es']) a k (VRef (length h))"
      from s(4) Cons.prems(4) have es: "es' = es" by simp
      have c: "h' ! length h = HObj es"
        using s(2) by (simp add: s(5) es nth_assignField_other)
      have f: "field h' a k = Some (VRef (length h))"
        using s(2,3) by (simp add: s(5) field_assignField nth_append)
      have "getPath_store g d [k] = Some (VRef (length h))"
        if "length g = length h'" and "\<forall>b<length g. length h \<le> b \<or> b \<in> fst ` set (walk h d [k]) \<longrightarrow> g ! b = h' ! b" for g
      proof -
        have "a < length g" using that(1) s(2) by (simp add: s(5))
        moreover have "a \<in> fst ` set (walk h d [k])" by (simp add: s(1))
        ultimately have "g ! a = h' ! a" using that(2) by blast
        then have "field g a k = field h' a k" using that(1) by (simp add: field_def)
        then show ?thesis using f by (simp add: s(1))
      qed
      then show ?thesis using c True by (auto simp: s(5))
    qed
  next
    case False
    from Cons.prems(1) False obtain a kvs h1 v h2 r2 where
      s: "d = VRef a" "a < length h" "h ! a = HObj kvs"
      "(map_of kvs k = Some v \<and> h1 = h) \<or> (map_of kvs k = None \<and> h1 = h @ [HObj []] \<and> v = VRef (length h))"
      "addPath_store ks h1 v l = Inr (h2, r2)" "h' = assignField h2 a k r2" "r = d"
      by (elim addPath_store_step_cases)
    have len: "length h \<le> length h1" "length h1 \<le> length h2" and r2: "r2 = v"
      using s(4) addPath_store_returns_data [OF s(5)] by auto
    have fk: "field h a k = map_of kvs k" using s(2,3) by (simp add: field_def)
    have w1: "set (walk h1 v ks) \<subseteq> set (walk h d (k # ks)) \<union> {(b, x). length h \<le> b}"
      and d1: "distinct (map fst (walk h1 v ks))"
      and na: "a \<notin> fst ` set (walk h1 v ks)"
    proof -
      show "set (walk h1 v ks) \<subseteq> set (walk h d (k # ks)) \<union> {(b, x). length h \<le> b}"
        using s(4) by (cases ks) (auto simp: s(1) fk split: option.splits)
      show "distinct (map fst (walk h1 v ks))"
        using s(4) Cons.prems(3) by (cases ks) (auto simp: s(1) fk split: option.splits)
      show "a \<notin> fst ` set (walk h1 v ks)"
        using s(2,4) Cons.prems(3) by (cases ks) (auto simp: s(1) fk split: option.splits)
    qed
    have ce: "copyEntries h1 l = Inr es"
      using s(4) Cons.prems(4) by (auto simp: copyEntries_append)
    from Cons.IH [OF s(5) False d1 ce] obtain c where
      c: "length h1 \<le> c" "c < length h2" "h2 ! c = HObj es"
      and reach: "\<And>g. length g = length h2 \<Longrightarrow>
          (\<forall>b<length g. length h1 \<le> b \<or> b \<in> fst ` set (walk h1 v ks) \<longrightarrow> g ! b = h2 ! b) \<Longrightarrow>
          getPath_store g v ks = Some (VRef c)"
      by blast
    have ca: "c \<noteq> a" using c(1) len s(2) by simp
    have h'c: "h' ! c = HObj es" using ca c(3) by (simp add: s(6) nth_assignField_other)
    have h2a: "h2 ! a = HObj kvs"
    proof -
      have "h2 ! a = h1 ! a"
        using addPath_store_untouched [OF s(5) _ na] s(2) len by simp
      also have "h1 ! a = h ! a" using s(2,4) by (auto simp: nth_append)
      finally show ?thesis by (simp add: s(3))
    qed
    have alen: "a < length h2" using s(2) len by simp
    have fa: "field h' a k = Some v"
      using alen h2a by (simp add: s(6) r2 field_assignField)
    have "getPath_store g d (k # ks) = Some (VRef c)"
      if gl: "length g = length h'"
        and ag: "\<forall>b<length g. length h \<le> b \<or> b \<in> fst ` set (walk h d (k # ks)) \<longrightarrow> g ! b = h' ! b" for g
    proof -
      have gl2: "length g = length h2" using gl by (simp add: s(6))
      have "g ! b = h2 ! b" if b: "b < length g" "length h1 \<le> b \<or> b \<in> fst ` set (walk h1 v ks)" for b
      proof -
        from b(2) have "length h \<le> b \<or> b \<in> fst ` set (walk h d (k # ks))"
          using w1 len by force
        with ag b(1) have "g ! b = h' ! b" by blast
        moreover have "b \<noteq> a" using b(2) na s(2) len by auto
        ultimately show ?thesis by (simp add: s(6) nth_assignField_other)
      qed
      then have inner: "getPath_store g v ks = Some (VRef c)"
        using reach [OF gl2] by blast
      have "g ! a = h' ! a" using ag alen gl2 by (simp add: s(1))
      then have "field g a k = field h' a k" using gl by (simp add: field_def)
      with fa inner show ?thesis by (simp add: s(1))
    qed
    moreover have "length h \<le> c" "c < length h'" using c len by (simp_all add: s(6))
    ultimately show ?thesis using h'c by blast
  qed
qed

lemma recursiveAdd_store_addPath_aux:
  "length ident - i = n \<Longrightarrow> i < length ident \<Longrightarrow>
   recursiveAdd_store ident i h data obj = addPath_store (drop i ident) h data obj"
proof (induction n arbitrary: i h data)
  case 0
  then show ?case by simp
next
  case (Suc n)
  have d: "drop i ident = ident ! i # drop (Suc i) ident"
    using Suc.prems(2) by (simp add: Cons_nth_drop_Suc)
  show ?case
  proof (cases "Suc i < length ident")
    case True
    then have ne: "drop (Suc i) ident \<noteq> []" by simp
    have ih: "recursiveAdd_store ident (Suc i) h1 v obj = addPath_store (drop (Suc i) ident) h1 v obj" for h1 v
      using Suc.IH [of "Suc i" h1 v] Suc.prems True by simp
    show ?thesis
      using True Suc.prems(2)
      by (subst recursiveAdd_store.simps, subst d, subst addPath_store_step [OF ne])
         (simp add: ih Let_def cong: val.case_cong hobj.case_cong option.case_cong if_cong)
  next
    case False
    with Suc.prems(2) have e: "drop (Suc i) ident = []" by simp
    show ?thesis
      using False Suc.prems(2)
      by (subst recursiveAdd_store.simps, subst d, subst e)
         (simp add: Let_def cong: val.case_cong hobj.case_cong option.case_cong if_cong)
  qed
qed

lemma recursiveAdd_store_0: "p \<noteq> [] \<Longrightarrow> recursiveAdd_store p 0 h t l = addPath_store p h t l"
  using recursiveAdd_store_addPath_aux [of p 0 "length p" h t l] by simp

lemma walk_Nil [simp]: "walk h v [] = []"
  by (cases v) simp_all

lemma nth_assignField_same:
  "a < length h \<Longrightarrow> h ! a = HObj kvs \<Longrightarrow> assignField h a k v ! a = HObj (AList.update k v kvs)"
  by (simp add: assignField_def)

lemma addPath_store_keeps_kind:
  "addPath_store ps h d l = Inr (h', r) \<Longrightarrow> a0 < length h \<Longrightarrow> h ! a0 = HObj kvs0 \<Longrightarrow>
   \<exists>kvs'. h' ! a0 = HObj kvs'"
proof (induction ps arbitrary: h d h' r kvs0)
  case Nil
  then show ?case by simp
next
  case (Cons k ks)
  show ?case
  proof (cases "ks = []")
    case True
    from Cons.prems(1) [unfolded True] show ?thesis
    proof (rule addPath_store_last_cases)
      fix a kvs es
      assume s: "d = VRef a" "a < length h" "h ! a = HObj kvs"
        "h' = assignField (h @ [HObj es]) a k (VRef (length h))"
      show ?thesis
      proof (cases "a0 = a")
        case True
        then show ?thesis using s by (simp add: nth_assignField_same nth_append)
      next
        case False
        then show ?thesis using s Cons.prems(2,3) by (simp add: nth_assignField_other nth_append)
      qed
    qed
  next
    case False
    from Cons.prems(1) False obtain a kvs h1 v h2 r2 where
      s: "d = VRef a" "a < length h" "h ! a = HObj kvs"
      "(map_of kvs k = Some v \<and> h1 = h) \<or> (map_of kvs k = None \<and> h1 = h @ [HObj []] \<and> v = VRef (length h))"
      "addPath_store ks h1 v l = Inr (h2, r2)" "h' = assignField h2 a k r2" "r = d"
      by (elim addPath_store_step_cases)
    have len: "length h \<le> length h1" "length h1 \<le> length h2"
      using s(4) addPath_store_returns_data [OF s(5)] by auto
    have "h1 ! a0 = HObj kvs0" using s(4) Cons.prems(2,3) by (auto simp: nth_append)
    from Cons.IH [OF s(5) _ this] Cons.prems(2) len obtain kvs2 where k2: "h2 ! a0 = HObj kvs2"
      by auto
    show ?thesis
    proof (cases "a0 = a")
      case True
      then show ?thesis using k2 s(2) len by (simp add: s(6) nth_assignField_same)
    next
      case False
      then show ?thesis using k2 by (simp add: s(6) nth_assignField_other)
    qed
  qed
qed

lemma addPath_store_keeps_children:
  "addPath_store ps h d l = Inr (h', r) \<Longrightarrow> field h a0 k0 = Some v0 \<Longrightarrow>
   \<not> (length (walk h d ps) = length ps \<and> (a0, k0) = last (walk h d ps)) \<Longrightarrow>
   field h' a0 k0 = Some v0"
proof (induction ps arbitrary: h d h' r)
  case Nil
  then show ?case by simp
next
  case (Cons k ks)
  have a0: "a0 < length h" using Cons.prems(2) by (auto simp: field_def split: if_splits)
  show ?case
  proof (cases "ks = []")
    case True
    from Cons.prems(1) [unfolded True] show ?thesis
    proof (rule addPath_store_last_cases)
      fix a kvs es
      assume s: "d = VRef a" "a < length h" "h ! a = HObj kvs"
        "h' = assignField (h @ [HObj es]) a k (VRef (length h))"
      have "(a0, k0) \<noteq> (a, k)" using Cons.prems(3) True
        by (auto simp: s(1) split: option.splits)
      then show ?thesis using s(2) a0 Cons.prems(2)
        by (auto simp: s(4) field_assignField field_append)
    qed
  next
    case False
    from Cons.prems(1) False obtain a kvs h1 v h2 r2 where
      s: "d = VRef a" "a < length h" "h ! a = HObj kvs"
      "(map_of kvs k = Some v \<and> h1 = h) \<or> (map_of kvs k = None \<and> h1 = h @ [HObj []] \<and> v = VRef (length h))"
      "addPath_store ks h1 v l = Inr (h2, r2)" "h' = assignField h2 a k r2" "r = d"
      by (elim addPath_store_step_cases)
    have len: "length h \<le> length h1" "length h1 \<le> length h2" and r2: "r2 = v"
      using s(4) addPath_store_returns_data [OF s(5)] by auto
    have fk: "field h a k = map_of kvs k" using s(2,3) by (simp add: field_def)
    have alen: "a < length h2" using s(2) len by simp
    have "h1 ! a = HObj kvs" using s(2,3,4) by (auto simp: nth_append)
    from addPath_store_keeps_kind [OF s(5) _ this] s(2) len
    obtain kvs2 where h2a: "h2 ! a = HObj kvs2" by auto
    show ?thesis
    proof (cases "(a0, k0) = (a, k)")
      case True
      with Cons.prems(2) fk have "map_of kvs k = Some v0" by simp
      with s(4) have "v = v0" by auto
      then show ?thesis using True alen h2a by (simp add: s(6) r2 field_assignField)
    next
      case False
      have f1: "field h1 a0 k0 = Some v0"
        using s(4) a0 Cons.prems(2) by (auto simp: field_append)
      have nl: "\<not> (length (walk h1 v ks) = length ks \<and> (a0, k0) = last (walk h1 v ks))"
      proof (cases "map_of kvs k")
        case None
        with s(4) have "h1 = h @ [HObj []]" "v = VRef (length h)" by auto
        then show ?thesis using a0 False \<open>ks \<noteq> []\<close> by (cases ks) (auto split: option.splits)
      next
        case (Some w)
        with s(4) have e: "h1 = h" "v = w" by auto
        have w: "walk h d (k # ks) = (a, k) # walk h v ks"
          using Some e by (simp add: s(1) fk)
        show ?thesis
        proof
          assume c: "length (walk h1 v ks) = length ks \<and> (a0, k0) = last (walk h1 v ks)"
          with \<open>ks \<noteq> []\<close> have "walk h v ks \<noteq> []" using e by auto
          with c have "length (walk h d (k # ks)) = length (k # ks) \<and> (a0, k0) = last (walk h d (k # ks))"
            using e by (simp add: w)
          with Cons.prems(3) show False by blast
        qed
      qed
      from Cons.IH [OF s(5) f1 nl] have "field h2 a0 k0 = Some v0" .
      then show ?thesis using False alen by (auto simp: s(6) field_assignField)
    qed
  qed
qed

lemma addPath_store_walk_valid:
  "addPath_store ps h d l = Inr (h', r) \<Longrightarrow> (a0, k0) \<in> set (walk h d ps) \<Longrightarrow> a0 < length h"
proof (induction ps arbitrary: h d h' r)
  case Nil
  then show ?case by (cases d) simp_all
next
  case (Cons k ks)
  show ?case
  proof (cases "ks = []")
    case True
    from Cons.prems(1) [unfolded True] show ?thesis
    proof (rule addPath_store_last_cases)
      fix a kvs es
      assume s: "d = VRef a" "a < length h"
      with Cons.prems(2) True show ?thesis by (auto split: option.splits simp: s(1))
    qed
  next
    case False
    from Cons.prems(1) False obtain a kvs h1 v h2 r2 where
      s: "d = VRef a" "a < length h" "h ! a = HObj kvs"
      "(map_of kvs k = Some v \<and> h1 = h) \<or> (map_of kvs k = None \<and> h1 = h @ [HObj []] \<and> v = VRef (length h))"
      "addPath_store ks h1 v l = Inr (h2, r2)" "h' = assignField h2 a k r2" "r = d"
      by (elim addPath_store_step_cases)
    have fk: "field h a k = map_of kvs k" using s(2,3) by (simp add: field_def)
    show ?thesis
    proof (cases "map_of kvs k")
      case None
      then show ?thesis using Cons.prems(2) s(2) by (simp add: s(1) fk)
    next
      case (Some w)
      with s(4) have e: "h1 = h" "v = w" by auto
      from Cons.prems(2) Some have "(a0, k0) = (a, k) \<or> (a0, k0) \<in> set (walk h v ks)"
        using e by (auto simp: s(1) fk)
      then show ?thesis using s(2) Cons.IH [OF s(5)] e by auto
    qed
  qed
qed

lemma distinct_fst_index:
  assumes "distinct (map fst w)" and "i < length w" and "j < length w"
    and "fst (w ! i) = fst (w ! j)"
  shows "i = j"
proof (rule ccontr)
  assume "i \<noteq> j"
  with assms(1,2,3) have "map fst w ! i \<noteq> map fst w ! j"
    by (simp add: distinct_conv_nth del: nth_map)
  with assms(2,3,4) show False by simp
qed

lemma getPath_store_snoc:
  "getPath_store h d (q @ [k]) =
     (case getPath_store h d q of Some (VRef a) \<Rightarrow> field h a k | _ \<Rightarrow> None)"
proof (induction q arbitrary: d)
  case Nil
  show ?case by (cases d) (simp_all split: option.splits)
next
  case (Cons x q)
  show ?case by (cases d) (simp_all add: Cons.IH split: option.splits)
qed

lemma walk_length: "length (walk h d ps) \<le> length ps"
proof (induction ps arbitrary: d)
  case Nil
  show ?case by simp
next
  case (Cons k ks)
  show ?case using Cons.IH by (cases d) (auto split: option.splits intro: le_SucI)
qed

lemma walk_nth:
  "i < length (walk h d ps) \<Longrightarrow>
   snd (walk h d ps ! i) = ps ! i \<and>
   getPath_store h d (take i ps) = Some (VRef (fst (walk h d ps ! i)))"
proof (induction ps arbitrary: d i)
  case Nil
  then show ?case by simp
next
  case (Cons k ks)
  then obtain a where d: "d = VRef a" by (cases d) auto
  show ?case
  proof (cases i)
    case 0
    then show ?thesis by (simp add: d)
  next
    case (Suc j)
    with Cons.prems obtain v where f: "field h a k = Some v" and j: "j < length (walk h v ks)"
      by (auto simp: d split: option.splits)
    from Cons.IH [OF j] show ?thesis by (simp add: Suc d f)
  qed
qed

lemma walk_next:
  "Suc i < length (walk h d ps) \<Longrightarrow>
   field h (fst (walk h d ps ! i)) (ps ! i) = Some (VRef (fst (walk h d ps ! Suc i)))"
proof (induction ps arbitrary: d i)
  case Nil
  then show ?case by simp
next
  case (Cons k ks)
  then obtain a where d: "d = VRef a" by (cases d) auto
  from Cons.prems obtain v where f: "field h a k = Some v"
    by (cases "field h a k") (auto simp: d)
  have w: "walk h d (k # ks) = (a, k) # walk h v ks" by (simp add: d f)
  from Cons.prems have j: "i < length (walk h v ks)" by (simp add: w)
  show ?case
  proof (cases i)
    case 0
    from j obtain b where v: "v = VRef b" by (cases v) auto
    from j obtain k' ks' where ks: "ks = k' # ks'" by (cases ks) auto
    have "walk h v ks ! 0 = (b, k')" by (simp add: v ks)
    then show ?thesis by (simp add: 0 w f v)
  next
    case (Suc j')
    with j have "Suc j' < length (walk h v ks)" by simp
    from Cons.IH [OF this] show ?thesis by (simp add: Suc w)
  qed
qed

lemma addPath_store_prefix_kept:
  assumes r: "addPath_store ps h d l = Inr (h', r0)"
    and dist: "distinct (map fst (walk h d ps))"
    and i: "i < length (walk h d ps)"
  shows "getPath_store h' d (take i ps) = Some (VRef (fst (walk h d ps ! i)))"
  using i
proof (induction i)
  case 0
  then show ?case using walk_nth [of 0 h d ps] by simp
next
  case (Suc j)
  let ?w = "walk h d ps"
  from Suc.prems have j: "j < length ?w" by simp
  have jp: "j < length ps" using j walk_length [of h d ps] by simp
  have f: "field h (fst (?w ! j)) (ps ! j) = Some (VRef (fst (?w ! Suc j)))"
    using walk_next [OF Suc.prems] .
  have sndj: "snd (?w ! j) = ps ! j" using walk_nth [OF j] by blast
  have pair: "?w ! j = (fst (?w ! j), ps ! j)"
    by (subst sndj [symmetric]) simp
  have "?w ! j \<noteq> last ?w"
  proof
    assume e: "?w ! j = last ?w"
    from j have "?w \<noteq> []" by auto
    then have "last ?w = ?w ! (length ?w - 1)" by (rule last_conv_nth)
    with e have "fst (?w ! j) = fst (?w ! (length ?w - 1))" by simp
    moreover have "length ?w - 1 < length ?w" using j by simp
    ultimately have "j = length ?w - 1"
      using distinct_fst_index [OF dist j] by blast
    with Suc.prems show False by simp
  qed
  with pair have nl: "\<not> (length ?w = length ps \<and> (fst (?w ! j), ps ! j) = last ?w)" by metis
  have f': "field h' (fst (?w ! j)) (ps ! j) = Some (VRef (fst (?w ! Suc j)))"
    using addPath_store_keeps_children [OF r f nl] .
  have t: "take (Suc j) ps = take j ps @ [ps ! j]"
    using jp by (rule take_Suc_conv_app_nth)
  have "getPath_store h' d (take j ps @ [ps ! j]) = Some (VRef (fst (?w ! Suc j)))"
    unfolding getPath_store_snoc using Suc.IH [OF j] f' by simp
  then show ?case unfolding t .
qed

lemma addPath_store_siblings_kept:
  assumes r: "addPath_store ps h d l = Inr (h', r0)"
    and dist: "distinct (map fst (walk h d ps))"
    and i: "i < length (walk h d ps)" and k: "k \<noteq> ps ! i"
  shows "getPath_store h' d (take i ps @ [k]) = getPath_store h d (take i ps @ [k])"
proof -
  let ?w = "walk h d ps"
  let ?a = "fst (?w ! i)"
  have mem: "?w ! i \<in> set ?w" using i by simp
  then have alen: "?a < length h"
    using addPath_store_walk_valid [OF r, of ?a "snd (?w ! i)"] by simp
  have "(?a, k) \<notin> set ?w"
  proof
    assume "(?a, k) \<in> set ?w"
    then obtain j where j: "j < length ?w" "?w ! j = (?a, k)" by (auto simp: in_set_conv_nth)
    then have "fst (?w ! j) = fst (?w ! i)" by simp
    then have "j = i" using distinct_fst_index [OF dist j(1) i] by blast
    with j(2) have "snd (?w ! i) = k" by (metis snd_conv)
    moreover have "snd (?w ! i) = ps ! i" using walk_nth [OF i] by blast
    ultimately show False using k by simp
  qed
  then have "field h' ?a k = field h ?a k"
    using addPath_store_frame [OF r alen] by blast
  moreover have "getPath_store h' d (take i ps) = Some (VRef ?a)"
    using addPath_store_prefix_kept [OF r dist i] .
  moreover have "getPath_store h d (take i ps) = Some (VRef ?a)"
    using walk_nth [OF i] by blast
  ultimately show ?thesis unfolding getPath_store_snoc by simp
qed

text \<open>
  C7. The merge works in place and keeps the frame. For every store, every tree
  \<open>t\<close> in it, every non-empty path \<open>p\<close> that meets plain objects only, and
  every leaf \<open>l\<close>: the call returns the reference \<open>t\<close> it was given and no
  object of the store disappears. An entry of an object is unchanged unless the
  merge walks through that object and takes that very key there, and an object
  the merge does not walk through is unchanged altogether. Every entry that was
  there keeps its value, the keys on the walk included, save the one at the
  final key of the path: so each object on the path still hangs where it did.
  And in a tree (the objects on the walk pairwise different), at every level of
  \<open>t\<close> on the path, the value under every key other than the segment of
  \<open>p\<close> at that level reads as before, and the value at \<open>p\<close> itself is a
  new object holding the entries of the leaf.
\<close>

theorem merge_in_place_and_frame:
  assumes "p \<noteq> []" and "plainPath h t p" and "copyEntries h l = Inr es"
  shows "\<exists>h'. recursiveAdd_store p 0 h t l = Inr (h', t)
           \<and> length h \<le> length h'
           \<and> (\<forall>a<length h. \<forall>k. (a, k) \<notin> set (walk h t p) \<longrightarrow> field h' a k = field h a k)
           \<and> (\<forall>a<length h. a \<notin> fst ` set (walk h t p) \<longrightarrow> h' ! a = h ! a)
           \<and> (\<forall>a k v. field h a k = Some v \<longrightarrow>
                 \<not> (length (walk h t p) = length p \<and> (a, k) = last (walk h t p)) \<longrightarrow>
                 field h' a k = Some v)
           \<and> (distinct (map fst (walk h t p)) \<longrightarrow>
                (\<forall>i<length (walk h t p). \<forall>k. k \<noteq> p ! i \<longrightarrow>
                   getPath_store h' t (take i p @ [k]) = getPath_store h t (take i p @ [k]))
                \<and> (\<exists>c. length h \<le> c \<and> getPath_store h' t p = Some (VRef c) \<and> h' ! c = HObj es))"
proof -
  from addPath_store_succeeds [OF assms] obtain h' where
    r: "addPath_store p h t l = Inr (h', t)" by blast
  have "length h \<le> length h'"
    using addPath_store_returns_data [OF r] by simp
  moreover have "\<forall>a<length h. \<forall>k. (a, k) \<notin> set (walk h t p) \<longrightarrow> field h' a k = field h a k"
    using addPath_store_frame [OF r] by blast
  moreover have "\<forall>a<length h. a \<notin> fst ` set (walk h t p) \<longrightarrow> h' ! a = h ! a"
    using addPath_store_untouched [OF r] by blast
  moreover have "\<forall>a k v. field h a k = Some v \<longrightarrow>
                 \<not> (length (walk h t p) = length p \<and> (a, k) = last (walk h t p)) \<longrightarrow>
                 field h' a k = Some v"
    using addPath_store_keeps_children [OF r] by blast
  moreover have "distinct (map fst (walk h t p)) \<longrightarrow>
                (\<forall>i<length (walk h t p). \<forall>k. k \<noteq> p ! i \<longrightarrow>
                   getPath_store h' t (take i p @ [k]) = getPath_store h t (take i p @ [k]))
                \<and> (\<exists>c. length h \<le> c \<and> getPath_store h' t p = Some (VRef c) \<and> h' ! c = HObj es)"
  proof
    assume dist: "distinct (map fst (walk h t p))"
    from addPath_store_copy [OF r assms(1) dist assms(3)] obtain c where
      c: "length h \<le> c" "h' ! c = HObj es"
      and reach: "\<And>g. length g = length h' \<Longrightarrow>
        (\<forall>b<length g. length h \<le> b \<or> b \<in> fst ` set (walk h t p) \<longrightarrow> g ! b = h' ! b) \<Longrightarrow>
        getPath_store g t p = Some (VRef c)"
      by blast
    have "getPath_store h' t p = Some (VRef c)" using reach [of h'] by simp
    with c have "\<exists>c. length h \<le> c \<and> getPath_store h' t p = Some (VRef c) \<and> h' ! c = HObj es"
      by blast
    moreover have "\<forall>i<length (walk h t p). \<forall>k. k \<noteq> p ! i \<longrightarrow>
                   getPath_store h' t (take i p @ [k]) = getPath_store h t (take i p @ [k])"
      using addPath_store_siblings_kept [OF r dist] by blast
    ultimately show "(\<forall>i<length (walk h t p). \<forall>k. k \<noteq> p ! i \<longrightarrow>
                   getPath_store h' t (take i p @ [k]) = getPath_store h t (take i p @ [k]))
                \<and> (\<exists>c. length h \<le> c \<and> getPath_store h' t p = Some (VRef c) \<and> h' ! c = HObj es)"
      by blast
  qed
  moreover have "recursiveAdd_store p 0 h t l = Inr (h', t)"
    using r assms(1) by (simp add: recursiveAdd_store_0)
  ultimately show ?thesis by blast
qed

theorem merge_in_place_and_frame_witness:
  "[''api'', ''A'', ''__compat''] \<noteq> []
   \<and> plainPath [HObj [(''api'', VRef 1)], HObj [(''x'', VNum 1)], HObj [(''support'', VRef 3)], HObj []] (VRef 0) [''api'', ''A'', ''__compat'']
   \<and> copyEntries [HObj [(''api'', VRef 1)], HObj [(''x'', VNum 1)], HObj [(''support'', VRef 3)], HObj []] (VRef 2) = Inr [(''support'', VRef 3)]
   \<and> distinct (map fst (walk [HObj [(''api'', VRef 1)], HObj [(''x'', VNum 1)], HObj [(''support'', VRef 3)], HObj []] (VRef 0) [''api'', ''A'', ''__compat'']))
   \<and> recursiveAdd_store [''api'', ''A'', ''__compat''] 0 [HObj [(''api'', VRef 1)], HObj [(''x'', VNum 1)], HObj [(''support'', VRef 3)], HObj []] (VRef 0) (VRef 2)
       = Inr ([HObj [(''api'', VRef 1)], HObj [(''x'', VNum 1), (''A'', VRef 4)],
               HObj [(''support'', VRef 3)], HObj [], HObj [(''__compat'', VRef 5)],
               HObj [(''support'', VRef 3)]], VRef 0)
   \<and> getPath_store [HObj [(''api'', VRef 1)], HObj [(''x'', VNum 1), (''A'', VRef 4)],
               HObj [(''support'', VRef 3)], HObj [], HObj [(''__compat'', VRef 5)],
               HObj [(''support'', VRef 3)]] (VRef 0) [''api'', ''x''] = Some (VNum 1)
   \<and> getPath_store [HObj [(''api'', VRef 1)], HObj [(''x'', VNum 1)], HObj [(''support'', VRef 3)], HObj []] (VRef 0) [''api'', ''x''] = Some (VNum 1)
   \<and> (\<exists>h'. recursiveAdd_store [''api'', ''A'', ''__compat''] 0 [HObj [(''api'', VRef 1)], HObj [(''x'', VNum 1)], HObj [(''support'', VRef 3)], HObj []] (VRef 0) (VRef 2) = Inr (h', VRef 0)
           \<and> length [HObj [(''api'', VRef 1)], HObj [(''x'', VNum 1)], HObj [(''support'', VRef 3)], HObj []] \<le> length h'
           \<and> (\<forall>a<length [HObj [(''api'', VRef 1)], HObj [(''x'', VNum 1)], HObj [(''support'', VRef 3)], HObj []]. \<forall>k.
                 (a, k) \<notin> set (walk [HObj [(''api'', VRef 1)], HObj [(''x'', VNum 1)], HObj [(''support'', VRef 3)], HObj []] (VRef 0) [''api'', ''A'', ''__compat'']) \<longrightarrow>
                 field h' a k = field [HObj [(''api'', VRef 1)], HObj [(''x'', VNum 1)], HObj [(''support'', VRef 3)], HObj []] a k)
           \<and> (\<forall>a<length [HObj [(''api'', VRef 1)], HObj [(''x'', VNum 1)], HObj [(''support'', VRef 3)], HObj []].
                 a \<notin> fst ` set (walk [HObj [(''api'', VRef 1)], HObj [(''x'', VNum 1)], HObj [(''support'', VRef 3)], HObj []] (VRef 0) [''api'', ''A'', ''__compat'']) \<longrightarrow>
                 h' ! a = [HObj [(''api'', VRef 1)], HObj [(''x'', VNum 1)], HObj [(''support'', VRef 3)], HObj []] ! a)
           \<and> (\<forall>a k v. field [HObj [(''api'', VRef 1)], HObj [(''x'', VNum 1)], HObj [(''support'', VRef 3)], HObj []] a k = Some v \<longrightarrow>
                 \<not> (length (walk [HObj [(''api'', VRef 1)], HObj [(''x'', VNum 1)], HObj [(''support'', VRef 3)], HObj []] (VRef 0) [''api'', ''A'', ''__compat'']) = length [''api'', ''A'', ''__compat'']
                    \<and> (a, k) = last (walk [HObj [(''api'', VRef 1)], HObj [(''x'', VNum 1)], HObj [(''support'', VRef 3)], HObj []] (VRef 0) [''api'', ''A'', ''__compat''])) \<longrightarrow>
                 field h' a k = Some v)
           \<and> (\<forall>i<length (walk [HObj [(''api'', VRef 1)], HObj [(''x'', VNum 1)], HObj [(''support'', VRef 3)], HObj []] (VRef 0) [''api'', ''A'', ''__compat'']). \<forall>k. k \<noteq> [''api'', ''A'', ''__compat''] ! i \<longrightarrow>
                 getPath_store h' (VRef 0) (take i [''api'', ''A'', ''__compat''] @ [k])
                   = getPath_store [HObj [(''api'', VRef 1)], HObj [(''x'', VNum 1)], HObj [(''support'', VRef 3)], HObj []] (VRef 0) (take i [''api'', ''A'', ''__compat''] @ [k]))
           \<and> (\<exists>c. length [HObj [(''api'', VRef 1)], HObj [(''x'', VNum 1)], HObj [(''support'', VRef 3)], HObj []] \<le> c \<and> getPath_store h' (VRef 0) [''api'', ''A'', ''__compat''] = Some (VRef c)
                 \<and> h' ! c = HObj [(''support'', VRef 3)]))"
proof -
  have h1: "[''api'', ''A'', ''__compat''] \<noteq> ([] :: string list)" by simp
  have h2: "plainPath [HObj [(''api'', VRef 1)], HObj [(''x'', VNum 1)], HObj [(''support'', VRef 3)], HObj []] (VRef 0) [''api'', ''A'', ''__compat'']"
    by code_simp
  have h3: "copyEntries [HObj [(''api'', VRef 1)], HObj [(''x'', VNum 1)], HObj [(''support'', VRef 3)], HObj []] (VRef 2) = Inr [(''support'', VRef 3)]"
    by code_simp
  have h4: "distinct (map fst (walk [HObj [(''api'', VRef 1)], HObj [(''x'', VNum 1)], HObj [(''support'', VRef 3)], HObj []] (VRef 0) [''api'', ''A'', ''__compat'']))"
    by code_simp
  have run: "recursiveAdd_store [''api'', ''A'', ''__compat''] 0 [HObj [(''api'', VRef 1)], HObj [(''x'', VNum 1)], HObj [(''support'', VRef 3)], HObj []] (VRef 0) (VRef 2)
       = Inr ([HObj [(''api'', VRef 1)], HObj [(''x'', VNum 1), (''A'', VRef 4)],
               HObj [(''support'', VRef 3)], HObj [], HObj [(''__compat'', VRef 5)],
               HObj [(''support'', VRef 3)]], VRef 0)"
    by code_simp
  have g1: "getPath_store [HObj [(''api'', VRef 1)], HObj [(''x'', VNum 1), (''A'', VRef 4)],
               HObj [(''support'', VRef 3)], HObj [], HObj [(''__compat'', VRef 5)],
               HObj [(''support'', VRef 3)]] (VRef 0) [''api'', ''x''] = Some (VNum 1)"
    by code_simp
  have g2: "getPath_store [HObj [(''api'', VRef 1)], HObj [(''x'', VNum 1)], HObj [(''support'', VRef 3)], HObj []] (VRef 0) [''api'', ''x''] = Some (VNum 1)"
    by code_simp
  from merge_in_place_and_frame [OF h1 h2 h3] h4
  have c: "\<exists>h'. recursiveAdd_store [''api'', ''A'', ''__compat''] 0 [HObj [(''api'', VRef 1)], HObj [(''x'', VNum 1)], HObj [(''support'', VRef 3)], HObj []] (VRef 0) (VRef 2) = Inr (h', VRef 0)
           \<and> length [HObj [(''api'', VRef 1)], HObj [(''x'', VNum 1)], HObj [(''support'', VRef 3)], HObj []] \<le> length h'
           \<and> (\<forall>a<length [HObj [(''api'', VRef 1)], HObj [(''x'', VNum 1)], HObj [(''support'', VRef 3)], HObj []]. \<forall>k.
                 (a, k) \<notin> set (walk [HObj [(''api'', VRef 1)], HObj [(''x'', VNum 1)], HObj [(''support'', VRef 3)], HObj []] (VRef 0) [''api'', ''A'', ''__compat'']) \<longrightarrow>
                 field h' a k = field [HObj [(''api'', VRef 1)], HObj [(''x'', VNum 1)], HObj [(''support'', VRef 3)], HObj []] a k)
           \<and> (\<forall>a<length [HObj [(''api'', VRef 1)], HObj [(''x'', VNum 1)], HObj [(''support'', VRef 3)], HObj []].
                 a \<notin> fst ` set (walk [HObj [(''api'', VRef 1)], HObj [(''x'', VNum 1)], HObj [(''support'', VRef 3)], HObj []] (VRef 0) [''api'', ''A'', ''__compat'']) \<longrightarrow>
                 h' ! a = [HObj [(''api'', VRef 1)], HObj [(''x'', VNum 1)], HObj [(''support'', VRef 3)], HObj []] ! a)
           \<and> (\<forall>a k v. field [HObj [(''api'', VRef 1)], HObj [(''x'', VNum 1)], HObj [(''support'', VRef 3)], HObj []] a k = Some v \<longrightarrow>
                 \<not> (length (walk [HObj [(''api'', VRef 1)], HObj [(''x'', VNum 1)], HObj [(''support'', VRef 3)], HObj []] (VRef 0) [''api'', ''A'', ''__compat'']) = length [''api'', ''A'', ''__compat'']
                    \<and> (a, k) = last (walk [HObj [(''api'', VRef 1)], HObj [(''x'', VNum 1)], HObj [(''support'', VRef 3)], HObj []] (VRef 0) [''api'', ''A'', ''__compat''])) \<longrightarrow>
                 field h' a k = Some v)
           \<and> (\<forall>i<length (walk [HObj [(''api'', VRef 1)], HObj [(''x'', VNum 1)], HObj [(''support'', VRef 3)], HObj []] (VRef 0) [''api'', ''A'', ''__compat'']). \<forall>k. k \<noteq> [''api'', ''A'', ''__compat''] ! i \<longrightarrow>
                 getPath_store h' (VRef 0) (take i [''api'', ''A'', ''__compat''] @ [k])
                   = getPath_store [HObj [(''api'', VRef 1)], HObj [(''x'', VNum 1)], HObj [(''support'', VRef 3)], HObj []] (VRef 0) (take i [''api'', ''A'', ''__compat''] @ [k]))
           \<and> (\<exists>c. length [HObj [(''api'', VRef 1)], HObj [(''x'', VNum 1)], HObj [(''support'', VRef 3)], HObj []] \<le> c \<and> getPath_store h' (VRef 0) [''api'', ''A'', ''__compat''] = Some (VRef c)
                 \<and> h' ! c = HObj [(''support'', VRef 3)])"
    by blast
  show ?thesis
    using h1 h2 h3 h4 run g1 g2 c
    by (intro conjI) assumption+
qed

text \<open>
  C8. The merge does not alias the leaf. For every store, every tree \<open>t\<close> in
  it whose objects along the non-empty path \<open>p\<close> are plain and pairwise
  different (a tree has no cycle), and every leaf \<open>l\<close>: after the merge the
  value at \<open>p\<close> is a reference to a new object, not the leaf, holding the
  entries the leaf had (a shallow copy: the entries are the same values).
  Whatever is written to the leaf object afterwards, the new object keeps those
  entries, and it is still what the tree holds at \<open>p\<close> when the leaf is not
  itself an object on the path.
\<close>

theorem merge_stores_fresh_copy:
  assumes "p \<noteq> []" and "plainPath h t p" and "copyEntries h l = Inr es"
    and "distinct (map fst (walk h t p))"
  shows "\<exists>h' c. recursiveAdd_store p 0 h t l = Inr (h', t)
           \<and> getPath_store h' t p = Some (VRef c)
           \<and> length h \<le> c \<and> l \<noteq> VRef c \<and> h' ! c = HObj es
           \<and> (\<forall>la x. l = VRef la \<longrightarrow>
                (h'[la := x]) ! c = HObj es
                \<and> (la \<notin> fst ` set (walk h t p) \<longrightarrow> getPath_store (h'[la := x]) t p = Some (VRef c)))"
proof -
  from addPath_store_succeeds [OF assms(1,2,3)] obtain h' where
    r: "addPath_store p h t l = Inr (h', t)" by blast
  from addPath_store_copy [OF r assms(1,4,3)] obtain c where
    c: "length h \<le> c" "c < length h'" "h' ! c = HObj es"
    and reach: "\<And>g. length g = length h' \<Longrightarrow>
        (\<forall>b<length g. length h \<le> b \<or> b \<in> fst ` set (walk h t p) \<longrightarrow> g ! b = h' ! b) \<Longrightarrow>
        getPath_store g t p = Some (VRef c)"
    by blast
  have here: "getPath_store h' t p = Some (VRef c)"
    using reach [of h'] by simp
  have valid: "la < length h" if "l = VRef la" for la
    using that assms(3) by (auto simp: copyEntries_def split: if_splits)
  then have neq: "l \<noteq> VRef c" using c(1) by fastforce
  have mut: "(h'[la := x]) ! c = HObj es
             \<and> (la \<notin> fst ` set (walk h t p) \<longrightarrow> getPath_store (h'[la := x]) t p = Some (VRef c))"
    if "l = VRef la" for la x
  proof -
    from valid [OF that] c(1) have "la \<noteq> c" "la < length h" by simp_all
    then have "(h'[la := x]) ! c = HObj es" using c(3) by simp
    moreover have "getPath_store (h'[la := x]) t p = Some (VRef c)" if "la \<notin> fst ` set (walk h t p)"
    proof (rule reach)
      show "length (h'[la := x]) = length h'" by simp
      show "\<forall>b<length (h'[la := x]). length h \<le> b \<or> b \<in> fst ` set (walk h t p) \<longrightarrow> h'[la := x] ! b = h' ! b"
      proof (intro allI impI)
        fix b assume "b < length (h'[la := x])" and b: "length h \<le> b \<or> b \<in> fst ` set (walk h t p)"
        from b that \<open>la < length h\<close> have "b \<noteq> la" by auto
        then show "h'[la := x] ! b = h' ! b" by simp
      qed
    qed
    ultimately show ?thesis by blast
  qed
  show ?thesis
    using r here c(1,3) neq mut assms(1) by (auto simp: recursiveAdd_store_0)
qed

theorem merge_stores_fresh_copy_witness:
  "[''api'', ''A'', ''__compat''] \<noteq> []
   \<and> plainPath [HObj [(''api'', VRef 1)], HObj [(''x'', VNum 1)], HObj [(''support'', VRef 3)], HObj []] (VRef 0) [''api'', ''A'', ''__compat'']
   \<and> copyEntries [HObj [(''api'', VRef 1)], HObj [(''x'', VNum 1)], HObj [(''support'', VRef 3)], HObj []] (VRef 2) = Inr [(''support'', VRef 3)]
   \<and> distinct (map fst (walk [HObj [(''api'', VRef 1)], HObj [(''x'', VNum 1)], HObj [(''support'', VRef 3)], HObj []] (VRef 0) [''api'', ''A'', ''__compat'']))
   \<and> (\<exists>h' c. recursiveAdd_store [''api'', ''A'', ''__compat''] 0 [HObj [(''api'', VRef 1)], HObj [(''x'', VNum 1)], HObj [(''support'', VRef 3)], HObj []] (VRef 0) (VRef 2) = Inr (h', VRef 0)
           \<and> getPath_store h' (VRef 0) [''api'', ''A'', ''__compat''] = Some (VRef c)
           \<and> length [HObj [(''api'', VRef 1)], HObj [(''x'', VNum 1)], HObj [(''support'', VRef 3)], HObj []] \<le> c \<and> VRef 2 \<noteq> VRef c \<and> h' ! c = HObj [(''support'', VRef 3)]
           \<and> (\<forall>la x. VRef 2 = VRef la \<longrightarrow>
                (h'[la := x]) ! c = HObj [(''support'', VRef 3)]
                \<and> (la \<notin> fst ` set (walk [HObj [(''api'', VRef 1)], HObj [(''x'', VNum 1)], HObj [(''support'', VRef 3)], HObj []] (VRef 0) [''api'', ''A'', ''__compat'']) \<longrightarrow>
                     getPath_store (h'[la := x]) (VRef 0) [''api'', ''A'', ''__compat''] = Some (VRef c))))"
proof -
  have h1: "[''api'', ''A'', ''__compat''] \<noteq> ([] :: string list)" by simp
  have h2: "plainPath [HObj [(''api'', VRef 1)], HObj [(''x'', VNum 1)], HObj [(''support'', VRef 3)], HObj []] (VRef 0) [''api'', ''A'', ''__compat'']"
    by code_simp
  have h3: "copyEntries [HObj [(''api'', VRef 1)], HObj [(''x'', VNum 1)], HObj [(''support'', VRef 3)], HObj []] (VRef 2) = Inr [(''support'', VRef 3)]"
    by code_simp
  have h4: "distinct (map fst (walk [HObj [(''api'', VRef 1)], HObj [(''x'', VNum 1)], HObj [(''support'', VRef 3)], HObj []] (VRef 0) [''api'', ''A'', ''__compat'']))"
    by code_simp
  show ?thesis
    using h1 h2 h3 h4 merge_stores_fresh_copy [OF h1 h2 h3 h4]
    by (intro conjI) assumption+
qed

section \<open>Support traversal: results\<close>

lemma statementSupports_not_null: "s \<noteq> JNull \<Longrightarrow> statementSupports s = Inr (addedNotRemoved s)"
  by (cases s) (simp_all add: statementSupports_def addedNotRemoved_def)

lemma js_some_statementSupports:
  "JNull \<notin> set xs \<Longrightarrow> js_some statementSupports xs = Inr (\<exists>s \<in> set xs. addedNotRemoved s)"
  by (induction xs) (auto simp: statementSupports_not_null split: bool.splits)

lemma supportLoop_no_null:
  "\<forall>st \<in> set vals. JNull \<notin> set (statementsOf st) \<Longrightarrow>
   supportLoop E thisIdent node vals w =
     (if \<exists>st \<in> set vals. environmentCounts st then writeFile E thisIdent node w else Inr w)"
  by (induction vals) (auto simp: js_some_statementSupports environmentCounts_def split: bool.splits)

lemma examine_no_null:
  "noNullStatement node \<Longrightarrow>
   examine E thisIdent node w =
     (if nodeSupported node then writeFile E thisIdent node (w\<lparr>examined := examined w @ [thisIdent]\<rparr>)
      else Inr (w\<lparr>examined := examined w @ [thisIdent]\<rparr>))"
  by (auto simp: examine_def noNullStatement_def nodeSupported_def supportLoop_no_null Let_def
           split: option.splits)

lemma supportOf_nodeWith [simp]: "supportOf (nodeWith x st) = Some (JObj [(x, st)])"
  by (simp add: supportOf_def nodeWith_def)

lemma noNull_nodeWith [simp]: "noNullStatement (nodeWith x st) = (JNull \<notin> set (statementsOf st))"
  by (simp add: noNullStatement_def objectValues_def)

lemma nodeSupported_nodeWith [simp]: "nodeSupported (nodeWith x st) = environmentCounts st"
  by (simp add: nodeSupported_def objectValues_def)

lemma writeFile_examined: "writeFile E ident obj w = Inr w' \<Longrightarrow> examined w' = examined w"
  by (auto simp: writeFile_def Let_def split: sum.splits)

lemma supportLoop_examined: "supportLoop E ident node vals w = Inr w' \<Longrightarrow> examined w' = examined w"
  by (induction vals) (auto split: sum.splits bool.splits dest: writeFile_examined)

lemma examine_examined: "examine E ident node w = Inr w' \<Longrightarrow> examined w' = examined w @ [ident]"
  by (auto simp: examine_def Let_def split: option.splits if_splits dest: supportLoop_examined)

lemma traverse_examined:
  "traverseFeatures E obj ident w = Inr w' \<Longrightarrow>
     examined w' = examined w @ map ((@) ident) (featurePaths obj)"
  "traverseEntries E kvs ident w = Inr w' \<Longrightarrow>
     examined w' = examined w @ map ((@) ident) (featurePathsEntries kvs)"
  "traverseElems E xs n ident w = Inr w' \<Longrightarrow>
     examined w' = examined w @ map ((@) ident) (featurePathsElems xs n)"
proof (induction E obj ident w and E kvs ident w and E xs n ident w
       arbitrary: w' and w' and w'
       rule: traverseFeatures_traverseEntries_traverseElems.induct)
  case (8 E i v rest ident w)
  show ?case
  proof (cases "isObjectValue v \<and> i \<noteq> ''__compat''")
    case True
    with "8.prems" obtain w1 w2 where
      e: "examine E (ident @ [i]) v w = Inr w1"
      and t: "traverseFeatures E v (ident @ [i]) w1 = Inr w2"
      and r: "traverseEntries E rest ident w2 = Inr w'"
      by (auto split: sum.splits)
    have "examined w1 = examined w @ [ident @ [i]]" using examine_examined [OF e] .
    moreover have "examined w2 = examined w1 @ map ((@) (ident @ [i])) (featurePaths v)"
      using "8.IH"(1) [OF True e t] .
    moreover have "examined w' = examined w2 @ map ((@) ident) (featurePathsEntries rest)"
      using "8.IH"(2) [OF True e t r] .
    ultimately show ?thesis using True by (simp add: comp_def)
  next
    case False
    with "8.prems" have "traverseEntries E rest ident w = Inr w'" by auto
    from "8.IH"(3) [OF False this] False show ?thesis by auto
  qed
next
  case (10 E v rest n ident w)
  show ?case
  proof (cases "isObjectValue v \<and> decimal n \<noteq> ''__compat''")
    case True
    with "10.prems" obtain w1 w2 where
      e: "examine E (ident @ [decimal n]) v w = Inr w1"
      and t: "traverseFeatures E v (ident @ [decimal n]) w1 = Inr w2"
      and r: "traverseElems E rest (n + 1) ident w2 = Inr w'"
      by (auto split: sum.splits)
    have "examined w1 = examined w @ [ident @ [decimal n]]" using examine_examined [OF e] .
    moreover have "examined w2 = examined w1 @ map ((@) (ident @ [decimal n])) (featurePaths v)"
      using "10.IH"(1) [OF True e t] .
    moreover have "examined w' = examined w2 @ map ((@) ident) (featurePathsElems rest (n + 1))"
      using "10.IH"(2) [OF True e t r] .
    ultimately show ?thesis using True by (simp add: comp_def)
  next
    case False
    with "10.prems" have "traverseElems E rest (n + 1) ident w = Inr w'" by auto
    from "10.IH"(3) [OF False this] False show ?thesis by auto
  qed
qed simp_all

text \<open>
  C1. An environment counts as supporting iff one of its statements, a single
  statement taken as a sequence of one, has a truthy \<^verbatim>\<open>version_added\<close> and
  a falsy \<^verbatim>\<open>version_removed\<close>; the node is supported, and the file write is
  made, iff one of its environments counts. In particular a node whose only
  statement is \<^verbatim>\<open>{version_added: null}\<close> is not written, nor one with
  \<^verbatim>\<open>{version_added: "15", version_removed: "20"}\<close>; one with
  \<^verbatim>\<open>{version_added: true}\<close> is written, and so is one whose statements are
  an array holding a statement that is added and not removed. (A statement is an
  object or a string; on \<^verbatim>\<open>null\<close> the test throws.)
\<close>

theorem support_predicate:
  "(JNull \<notin> set (statementsOf st) \<longrightarrow>
      js_some statementSupports (statementsOf st) = Inr (environmentCounts st))
   \<and> (noNullStatement node \<longrightarrow>
      examine E thisIdent node w =
        (if nodeSupported node
         then writeFile E thisIdent node (w\<lparr>examined := examined w @ [thisIdent]\<rparr>)
         else Inr (w\<lparr>examined := examined w @ [thisIdent]\<rparr>)))
   \<and> examine E thisIdent (nodeWith x (JObj [(''version_added'', JNull)])) w
       = Inr (w\<lparr>examined := examined w @ [thisIdent]\<rparr>)
   \<and> examine E thisIdent
        (nodeWith x (JObj [(''version_added'', JStr ''15''), (''version_removed'', JStr ''20'')])) w
       = Inr (w\<lparr>examined := examined w @ [thisIdent]\<rparr>)
   \<and> examine E thisIdent (nodeWith x (JObj [(''version_added'', JBool True)])) w
       = writeFile E thisIdent (nodeWith x (JObj [(''version_added'', JBool True)]))
           (w\<lparr>examined := examined w @ [thisIdent]\<rparr>)
   \<and> (s \<in> set xs \<and> addedNotRemoved s \<and> JNull \<notin> set xs \<longrightarrow>
      examine E thisIdent (nodeWith x (JArr xs)) w
       = writeFile E thisIdent (nodeWith x (JArr xs)) (w\<lparr>examined := examined w @ [thisIdent]\<rparr>))"
proof (intro conjI impI)
  assume "JNull \<notin> set (statementsOf st)"
  then show "js_some statementSupports (statementsOf st) = Inr (environmentCounts st)"
    by (simp add: js_some_statementSupports environmentCounts_def)
next
  assume "noNullStatement node"
  then show "examine E thisIdent node w =
        (if nodeSupported node
         then writeFile E thisIdent node (w\<lparr>examined := examined w @ [thisIdent]\<rparr>)
         else Inr (w\<lparr>examined := examined w @ [thisIdent]\<rparr>))"
    by (rule examine_no_null)
next
  show "examine E thisIdent (nodeWith x (JObj [(''version_added'', JNull)])) w
       = Inr (w\<lparr>examined := examined w @ [thisIdent]\<rparr>)"
    by (subst examine_no_null)
       (simp_all add: statementsOf_def environmentCounts_def addedNotRemoved_def truthyOpt_def)
next
  show "examine E thisIdent
        (nodeWith x (JObj [(''version_added'', JStr ''15''), (''version_removed'', JStr ''20'')])) w
       = Inr (w\<lparr>examined := examined w @ [thisIdent]\<rparr>)"
    by (subst examine_no_null)
       (simp_all add: statementsOf_def environmentCounts_def addedNotRemoved_def truthyOpt_def)
next
  show "examine E thisIdent (nodeWith x (JObj [(''version_added'', JBool True)])) w
       = writeFile E thisIdent (nodeWith x (JObj [(''version_added'', JBool True)]))
           (w\<lparr>examined := examined w @ [thisIdent]\<rparr>)"
    by (subst examine_no_null)
       (simp_all add: statementsOf_def environmentCounts_def addedNotRemoved_def truthyOpt_def)
next
  assume "s \<in> set xs \<and> addedNotRemoved s \<and> JNull \<notin> set xs"
  then show "examine E thisIdent (nodeWith x (JArr xs)) w
       = writeFile E thisIdent (nodeWith x (JArr xs)) (w\<lparr>examined := examined w @ [thisIdent]\<rparr>)"
    by (subst examine_no_null) (auto simp: statementsOf_def environmentCounts_def)
qed

theorem support_predicate_witness:
  "JNull \<notin> set (statementsOf (JArr [JStr ''mirror'', JObj [(''version_added'', JStr ''1'')]]))
   \<and> noNullStatement (nodeWith ''chrome'' (JArr [JStr ''mirror'', JObj [(''version_added'', JStr ''1'')]]))
   \<and> ((JObj [(''version_added'', JStr ''1'')]) \<in> set [JStr ''mirror'', JObj [(''version_added'', JStr ''1'')]] \<and> addedNotRemoved (JObj [(''version_added'', JStr ''1'')]) \<and> JNull \<notin> set [JStr ''mirror'', JObj [(''version_added'', JStr ''1'')]])
   \<and> environmentCounts (JArr [JStr ''mirror'', JObj [(''version_added'', JStr ''1'')]])
   \<and> nodeSupported (nodeWith ''chrome'' (JArr [JStr ''mirror'', JObj [(''version_added'', JStr ''1'')]]))
   \<and> js_some statementSupports (statementsOf (JArr [JStr ''mirror'', JObj [(''version_added'', JStr ''1'')]])) = Inr (environmentCounts (JArr [JStr ''mirror'', JObj [(''version_added'', JStr ''1'')]]))
   \<and> examine exampleEnv [''api'', ''Foo''] (nodeWith ''chrome'' (JArr [JStr ''mirror'', JObj [(''version_added'', JStr ''1'')]])) emptyWorld
       = writeFile exampleEnv [''api'', ''Foo''] (nodeWith ''chrome'' (JArr [JStr ''mirror'', JObj [(''version_added'', JStr ''1'')]])) (emptyWorld\<lparr>examined := examined emptyWorld @ [[''api'', ''Foo'']]\<rparr>)"
proof -
  have h1: "JNull \<notin> set (statementsOf (JArr [JStr ''mirror'', JObj [(''version_added'', JStr ''1'')]]))"
    by (simp add: statementsOf_def)
  have h2: "noNullStatement (nodeWith ''chrome'' (JArr [JStr ''mirror'', JObj [(''version_added'', JStr ''1'')]]))"
    by (simp add: statementsOf_def)
  have h3: "(JObj [(''version_added'', JStr ''1'')]) \<in> set [JStr ''mirror'', JObj [(''version_added'', JStr ''1'')]] \<and> addedNotRemoved (JObj [(''version_added'', JStr ''1'')]) \<and> JNull \<notin> set [JStr ''mirror'', JObj [(''version_added'', JStr ''1'')]]"
    by (simp add: addedNotRemoved_def truthyOpt_def)
  have e: "environmentCounts (JArr [JStr ''mirror'', JObj [(''version_added'', JStr ''1'')]])"
    by (simp add: environmentCounts_def statementsOf_def addedNotRemoved_def truthyOpt_def)
  have n: "nodeSupported (nodeWith ''chrome'' (JArr [JStr ''mirror'', JObj [(''version_added'', JStr ''1'')]]))"
    using e by simp
  note T = support_predicate [of "JArr [JStr ''mirror'', JObj [(''version_added'', JStr ''1'')]]" "nodeWith ''chrome'' (JArr [JStr ''mirror'', JObj [(''version_added'', JStr ''1'')]])" exampleEnv "[''api'', ''Foo'']" emptyWorld "''chrome''" "JObj [(''version_added'', JStr ''1'')]" "[JStr ''mirror'', JObj [(''version_added'', JStr ''1'')]]"]
  from T h1 have c1: "js_some statementSupports (statementsOf (JArr [JStr ''mirror'', JObj [(''version_added'', JStr ''1'')]])) = Inr (environmentCounts (JArr [JStr ''mirror'', JObj [(''version_added'', JStr ''1'')]]))"
    by blast
  from T h3 have c2: "examine exampleEnv [''api'', ''Foo''] (nodeWith ''chrome'' (JArr [JStr ''mirror'', JObj [(''version_added'', JStr ''1'')]])) emptyWorld
       = writeFile exampleEnv [''api'', ''Foo''] (nodeWith ''chrome'' (JArr [JStr ''mirror'', JObj [(''version_added'', JStr ''1'')]])) (emptyWorld\<lparr>examined := examined emptyWorld @ [[''api'', ''Foo'']]\<rparr>)"
    by blast
  from T h2 n have c3: "examine exampleEnv [''api'', ''Foo''] (nodeWith ''chrome'' (JArr [JStr ''mirror'', JObj [(''version_added'', JStr ''1'')]])) emptyWorld
       = writeFile exampleEnv [''api'', ''Foo''] (nodeWith ''chrome'' (JArr [JStr ''mirror'', JObj [(''version_added'', JStr ''1'')]])) (emptyWorld\<lparr>examined := examined emptyWorld @ [[''api'', ''Foo'']]\<rparr>)"
    by simp
  show ?thesis using h1 h2 h3 e n c1 c2 c3 by (intro conjI) simp_all
qed

lemma digitChar_code: "d < 10 \<Longrightarrow> (of_char (digitChar d) :: nat) = 48 + d"
  by (simp add: digitChar_def)

lemma decimal_digits: "c \<in> set (decimal n) \<Longrightarrow> \<exists>d<10. c = digitChar d"
proof (induction n rule: decimal.induct)
  case (1 n)
  show ?case
  proof (cases "n < 10")
    case True
    with "1.prems" show ?thesis by (subst (asm) decimal.simps) auto
  next
    case False
    with "1.prems" have "c \<in> set (decimal (n div 10)) \<or> c = digitChar (n mod 10)"
      by (subst (asm) decimal.simps) auto
    then show ?thesis
    proof
      assume "c \<in> set (decimal (n div 10))"
      then show ?thesis using "1.IH" False by simp
    next
      assume "c = digitChar (n mod 10)"
      moreover have "n mod 10 < 10" by simp
      ultimately show ?thesis by blast
    qed
  qed
qed

lemma decimal_not_compat: "decimal n \<noteq> ''__compat''"
proof
  assume "decimal n = ''__compat''"
  then have "CHR ''_'' \<in> set (decimal n)" by simp
  then obtain d where d: "d < 10" "CHR ''_'' = digitChar d"
    using decimal_digits by blast
  then have "(of_char CHR ''_'' :: nat) = 48 + d" using digitChar_code by metis
  with d(1) show False by simp
qed

lemma traverseEntries_append:
  "traverseEntries E (xs @ ys) ident w =
     (case traverseEntries E xs ident w of
        Inl e \<Rightarrow> Inl e
      | Inr w1 \<Rightarrow> traverseEntries E ys ident w1)"
proof (induction xs arbitrary: w)
  case Nil
  show ?case by simp
next
  case (Cons x xs)
  obtain i v where x: "x = (i, v)" by (cases x)
  show ?case
  proof (cases "isObjectValue v \<and> i \<noteq> ''__compat''")
    case False
    then show ?thesis using Cons.IH by (auto simp: x)
  next
    case True
    show ?thesis
    proof (cases "examine E (ident @ [i]) v w")
      case (Inl e)
      then show ?thesis using True by (simp add: x)
    next
      case (Inr w1)
      show ?thesis
      proof (cases "traverseFeatures E v (ident @ [i]) w1")
        case (Inl e)
        then show ?thesis using True Inr by (simp add: x)
      next
        case r: (Inr w2)
        then show ?thesis using True Inr Cons.IH [of w2] by (simp add: x)
      qed
    qed
  qed
qed

lemma traverseElems_append:
  "traverseElems E (xs @ ys) n ident w =
     (case traverseElems E xs n ident w of
        Inl e \<Rightarrow> Inl e
      | Inr w1 \<Rightarrow> traverseElems E ys (n + length xs) ident w1)"
proof (induction xs arbitrary: w n)
  case Nil
  show ?case by simp
next
  case (Cons v xs)
  show ?case
  proof (cases "isObjectValue v \<and> decimal n \<noteq> ''__compat''")
    case False
    then show ?thesis using Cons.IH [of "n + 1" w] by (auto cong: sum.case_cong)
  next
    case True
    show ?thesis
    proof (cases "examine E (ident @ [decimal n]) v w")
      case (Inl e)
      then show ?thesis using True by simp
    next
      case (Inr w1)
      show ?thesis
      proof (cases "traverseFeatures E v (ident @ [decimal n]) w1")
        case (Inl e)
        then show ?thesis using True Inr by simp
      next
        case r: (Inr w2)
        then show ?thesis using True Inr Cons.IH [of "n + 1" w2] by (simp cong: sum.case_cong)
      qed
    qed
  qed
qed

lemma traverse_object_aborts:
  assumes "isObjectValue v" and "i \<noteq> ''__compat''"
    and "traverseEntries E pre ident w = Inr w1"
    and "examine E (ident @ [i]) v w1 = Inl e
         \<or> (\<exists>w2. examine E (ident @ [i]) v w1 = Inr w2 \<and> traverseFeatures E v (ident @ [i]) w2 = Inl e)"
  shows "traverseFeatures E (JObj (pre @ (i, v) # post)) ident w = Inl e"
  using assms by (auto simp: traverseEntries_append)

lemma traverse_array_aborts:
  assumes "isObjectValue v"
    and "traverseElems E pre 0 ident w = Inr w1"
    and "examine E (ident @ [decimal (length pre)]) v w1 = Inl e
         \<or> (\<exists>w2. examine E (ident @ [decimal (length pre)]) v w1 = Inr w2
                \<and> traverseFeatures E v (ident @ [decimal (length pre)]) w2 = Inl e)"
  shows "traverseFeatures E (JArr (pre @ v # post)) ident w = Inl e"
  using assms by (auto simp: traverseElems_append decimal_not_compat)

lemma examine_write_throws:
  assumes "noNullStatement v" and "nodeSupported v"
    and "writeFile E thisIdent v (w\<lparr>examined := examined w @ [thisIdent]\<rparr>) = Inl e"
  shows "examine E thisIdent v w = Inl e"
  using assms by (simp add: examine_no_null)

lemma writeFile_throws:
  "getFilePath (jsNamespaces E) (path_join E) thisIdent = Inl e \<Longrightarrow> writeFile E thisIdent v w = Inl e"
  "getFilePath (jsNamespaces E) (path_join E) thisIdent = Inr filepath \<Longrightarrow>
   recursiveAdd (thisIdent @ [''__compat'']) 0
      (case map_of (files w) filepath of Some d \<Rightarrow> d | None \<Rightarrow> JObj [])
      (case member v ''__compat'' of Some c \<Rightarrow> c | None \<Rightarrow> JNull) = Inl e \<Longrightarrow>
   writeFile E thisIdent v w = Inl e"
  by (simp_all add: writeFile_def)

text \<open>
  C9, as stated, fails. A write that throws ends the traversal: the child
  \<open>x\<close> is supported, the resolver has no rule for the path \<open>x\<close>, and the
  child \<open>x.y\<close> is never reached, although \<open>x\<close> did trigger a write. And a
  key whose value is no object (\<open>note\<close>) is passed over.
\<close>

theorem traversal_stops_at_failed_write:
  "traverseFeatures exampleEnv (JObj [(''x'', JObj [(''__compat'', JObj [(''support'', JObj [(''chrome'', JObj [(''version_added'', JStr ''1'')])])]), (''y'', JObj [])])]) [] emptyWorld
     = Inl (Error ''Cannot determine file path from BCD path: x'')
   \<and> traverseFeatures exampleEnv (JObj [(''api'', JObj [(''Foo'', JObj [(''__compat'', JObj [(''support'', JObj [(''chrome'', JObj [(''version_added'', JNull)])])]), (''note'', JStr ''text'')])])]) [] emptyWorld
     = Inr \<lparr>files = [], examined = [[''api''], [''api'', ''Foo'']]\<rparr>"
  by code_simp

text \<open>
  C9, amended. A traversal that completes examines exactly the descendants
  that are objects or arrays and are reached through no key \<^verbatim>\<open>__compat\<close>,
  each once, parent before children and children in enumeration order, whether
  or not a node triggered a write. A write that throws is not caught and ends
  the traversal: when the entries before a child have been traversed and the
  examination of that child, or the traversal below it, throws, the traversal of
  the whole object (or array) throws that error, whatever entries follow; the
  examination of a supported node throws when its write does; and the write
  throws when the resolver rejects the identifier or the merge throws.
\<close>

theorem traversal_examines_feature_nodes:
  "(traverseFeatures E obj ident w = Inr w' \<longrightarrow>
      examined w' = examined w @ map ((@) ident) (featurePaths obj))
   \<and> (isObjectValue v \<and> i \<noteq> ''__compat'' \<and> traverseEntries E pre ident w = Inr w1
        \<and> (examine E (ident @ [i]) v w1 = Inl e
           \<or> (\<exists>w2. examine E (ident @ [i]) v w1 = Inr w2
                  \<and> traverseFeatures E v (ident @ [i]) w2 = Inl e)) \<longrightarrow>
      traverseFeatures E (JObj (pre @ (i, v) # post)) ident w = Inl e)
   \<and> (isObjectValue v \<and> traverseElems E elems 0 ident w = Inr w1
        \<and> (examine E (ident @ [decimal (length elems)]) v w1 = Inl e
           \<or> (\<exists>w2. examine E (ident @ [decimal (length elems)]) v w1 = Inr w2
                  \<and> traverseFeatures E v (ident @ [decimal (length elems)]) w2 = Inl e)) \<longrightarrow>
      traverseFeatures E (JArr (elems @ v # others)) ident w = Inl e)
   \<and> (noNullStatement v \<and> nodeSupported v
        \<and> writeFile E thisIdent v (w\<lparr>examined := examined w @ [thisIdent]\<rparr>) = Inl e \<longrightarrow>
      examine E thisIdent v w = Inl e)
   \<and> (getFilePath (jsNamespaces E) (path_join E) thisIdent = Inl e \<longrightarrow>
      writeFile E thisIdent v w = Inl e)
   \<and> (getFilePath (jsNamespaces E) (path_join E) thisIdent = Inr filepath
        \<and> recursiveAdd (thisIdent @ [''__compat'']) 0
             (case map_of (files w) filepath of Some d \<Rightarrow> d | None \<Rightarrow> JObj [])
             (case member v ''__compat'' of Some c \<Rightarrow> c | None \<Rightarrow> JNull) = Inl e \<longrightarrow>
      writeFile E thisIdent v w = Inl e)"
proof (intro conjI impI)
  assume "traverseFeatures E obj ident w = Inr w'"
  then show "examined w' = examined w @ map ((@) ident) (featurePaths obj)"
    by (rule traverse_examined(1))
next
  assume "isObjectValue v \<and> i \<noteq> ''__compat'' \<and> traverseEntries E pre ident w = Inr w1
        \<and> (examine E (ident @ [i]) v w1 = Inl e
           \<or> (\<exists>w2. examine E (ident @ [i]) v w1 = Inr w2
                  \<and> traverseFeatures E v (ident @ [i]) w2 = Inl e))"
  then show "traverseFeatures E (JObj (pre @ (i, v) # post)) ident w = Inl e"
    using traverse_object_aborts [of v i E pre ident w w1 e post] by blast
next
  assume "isObjectValue v \<and> traverseElems E elems 0 ident w = Inr w1
        \<and> (examine E (ident @ [decimal (length elems)]) v w1 = Inl e
           \<or> (\<exists>w2. examine E (ident @ [decimal (length elems)]) v w1 = Inr w2
                  \<and> traverseFeatures E v (ident @ [decimal (length elems)]) w2 = Inl e))"
  then show "traverseFeatures E (JArr (elems @ v # others)) ident w = Inl e"
    using traverse_array_aborts [of v E elems ident w w1 e others] by blast
next
  assume "noNullStatement v \<and> nodeSupported v
        \<and> writeFile E thisIdent v (w\<lparr>examined := examined w @ [thisIdent]\<rparr>) = Inl e"
  then show "examine E thisIdent v w = Inl e"
    using examine_write_throws by blast
next
  assume "getFilePath (jsNamespaces E) (path_join E) thisIdent = Inl e"
  then show "writeFile E thisIdent v w = Inl e"
    by (rule writeFile_throws(1))
next
  assume "getFilePath (jsNamespaces E) (path_join E) thisIdent = Inr filepath
        \<and> recursiveAdd (thisIdent @ [''__compat'']) 0
             (case map_of (files w) filepath of Some d \<Rightarrow> d | None \<Rightarrow> JObj [])
             (case member v ''__compat'' of Some c \<Rightarrow> c | None \<Rightarrow> JNull) = Inl e"
  then show "writeFile E thisIdent v w = Inl e"
    using writeFile_throws(2) by blast
qed

theorem traversal_examines_feature_nodes_witness:
  "traverseFeatures exampleEnv (JObj [(''api'', JObj [(''Foo'', JObj [(''__compat'', JObj [(''support'', JObj [(''chrome'', JObj [(''version_added'', JStr ''1'')])])]), (''bar'', JObj [(''__compat'', JObj [(''support'', JObj [(''chrome'', JObj [(''version_added'', JNull)])])])])])])]) [] emptyWorld = Inr \<lparr>files = [(''api/Foo.json'', JObj [(''api'', JObj [(''Foo'', JObj [(''__compat'', JObj [(''support'', JObj [(''chrome'', JObj [(''version_added'', JStr ''1'')])])])])])])], examined = [[''api''], [''api'', ''Foo''], [''api'', ''Foo'', ''bar'']]\<rparr>
   \<and> examined \<lparr>files = [(''api/Foo.json'', JObj [(''api'', JObj [(''Foo'', JObj [(''__compat'', JObj [(''support'', JObj [(''chrome'', JObj [(''version_added'', JStr ''1'')])])])])])])], examined = [[''api''], [''api'', ''Foo''], [''api'', ''Foo'', ''bar'']]\<rparr>
       = examined emptyWorld @ map ((@) []) (featurePaths (JObj [(''api'', JObj [(''Foo'', JObj [(''__compat'', JObj [(''support'', JObj [(''chrome'', JObj [(''version_added'', JStr ''1'')])])]), (''bar'', JObj [(''__compat'', JObj [(''support'', JObj [(''chrome'', JObj [(''version_added'', JNull)])])])])])])]))
   \<and> featurePaths (JObj [(''api'', JObj [(''Foo'', JObj [(''__compat'', JObj [(''support'', JObj [(''chrome'', JObj [(''version_added'', JStr ''1'')])])]), (''bar'', JObj [(''__compat'', JObj [(''support'', JObj [(''chrome'', JObj [(''version_added'', JNull)])])])])])])]) = [[''api''], [''api'', ''Foo''], [''api'', ''Foo'', ''bar'']]
   \<and> isObjectValue (JObj [(''__compat'', JObj [(''support'', JObj [(''chrome'', JObj [(''version_added'', JStr ''1'')])])]), (''y'', JObj [])])
   \<and> traverseEntries exampleEnv [] [] emptyWorld = Inr emptyWorld
   \<and> traverseElems exampleEnv [] 0 [] emptyWorld = Inr emptyWorld
   \<and> noNullStatement (JObj [(''__compat'', JObj [(''support'', JObj [(''chrome'', JObj [(''version_added'', JStr ''1'')])])]), (''y'', JObj [])]) \<and> nodeSupported (JObj [(''__compat'', JObj [(''support'', JObj [(''chrome'', JObj [(''version_added'', JStr ''1'')])])]), (''y'', JObj [])])
   \<and> getFilePath (jsNamespaces exampleEnv) (path_join exampleEnv) [''x''] = Inl (Error ''Cannot determine file path from BCD path: x'')
   \<and> writeFile exampleEnv [''x''] (JObj [(''__compat'', JObj [(''support'', JObj [(''chrome'', JObj [(''version_added'', JStr ''1'')])])]), (''y'', JObj [])]) (emptyWorld\<lparr>examined := examined emptyWorld @ [[''x'']]\<rparr>) = Inl (Error ''Cannot determine file path from BCD path: x'')
   \<and> examine exampleEnv ([] @ [''x'']) (JObj [(''__compat'', JObj [(''support'', JObj [(''chrome'', JObj [(''version_added'', JStr ''1'')])])]), (''y'', JObj [])]) emptyWorld = Inl (Error ''Cannot determine file path from BCD path: x'')
   \<and> traverseFeatures exampleEnv (JObj ([] @ (''x'', (JObj [(''__compat'', JObj [(''support'', JObj [(''chrome'', JObj [(''version_added'', JStr ''1'')])])]), (''y'', JObj [])])) # [(''z'', JObj [])])) [] emptyWorld = Inl (Error ''Cannot determine file path from BCD path: x'')
   \<and> examine exampleEnv ([] @ [decimal (length ([] :: json list))]) (JObj [(''__compat'', JObj [(''support'', JObj [(''chrome'', JObj [(''version_added'', JStr ''1'')])])]), (''y'', JObj [])]) emptyWorld = Inl (Error ''Cannot determine file path from BCD path: 0'')
   \<and> traverseFeatures exampleEnv (JArr ([] @ (JObj [(''__compat'', JObj [(''support'', JObj [(''chrome'', JObj [(''version_added'', JStr ''1'')])])]), (''y'', JObj [])]) # [JObj []])) [] emptyWorld = Inl (Error ''Cannot determine file path from BCD path: 0'')
   \<and> getFilePath (jsNamespaces exampleEnv) (path_join exampleEnv) [''api'', ''Foo''] = Inr ''api/Foo.json''
   \<and> writeFile exampleEnv [''api'', ''Foo''] (JObj [(''__compat'', JObj [(''support'', JObj [(''chrome'', JObj [(''version_added'', JStr ''1'')])])]), (''y'', JObj [])]) \<lparr>files = [(''api/Foo.json'', JObj [(''api'', JStr ''oops'')])], examined = []\<rparr> = Inl TypeError"
proof -
  have run: "traverseFeatures exampleEnv (JObj [(''api'', JObj [(''Foo'', JObj [(''__compat'', JObj [(''support'', JObj [(''chrome'', JObj [(''version_added'', JStr ''1'')])])]), (''bar'', JObj [(''__compat'', JObj [(''support'', JObj [(''chrome'', JObj [(''version_added'', JNull)])])])])])])]) [] emptyWorld = Inr \<lparr>files = [(''api/Foo.json'', JObj [(''api'', JObj [(''Foo'', JObj [(''__compat'', JObj [(''support'', JObj [(''chrome'', JObj [(''version_added'', JStr ''1'')])])])])])])], examined = [[''api''], [''api'', ''Foo''], [''api'', ''Foo'', ''bar'']]\<rparr>"
    by code_simp
  have paths: "featurePaths (JObj [(''api'', JObj [(''Foo'', JObj [(''__compat'', JObj [(''support'', JObj [(''chrome'', JObj [(''version_added'', JStr ''1'')])])]), (''bar'', JObj [(''__compat'', JObj [(''support'', JObj [(''chrome'', JObj [(''version_added'', JNull)])])])])])])]) = [[''api''], [''api'', ''Foo''], [''api'', ''Foo'', ''bar'']]"
    by simp
  have ov: "isObjectValue (JObj [(''__compat'', JObj [(''support'', JObj [(''chrome'', JObj [(''version_added'', JStr ''1'')])])]), (''y'', JObj [])])" by simp
  have ix: "''x'' \<noteq> ''__compat''" by simp
  have pre: "traverseEntries exampleEnv [] [] emptyWorld = Inr emptyWorld" by simp
  have pra: "traverseElems exampleEnv [] 0 [] emptyWorld = Inr emptyWorld" by simp
  have nn: "noNullStatement (JObj [(''__compat'', JObj [(''support'', JObj [(''chrome'', JObj [(''version_added'', JStr ''1'')])])]), (''y'', JObj [])])" by code_simp
  have ns: "nodeSupported (JObj [(''__compat'', JObj [(''support'', JObj [(''chrome'', JObj [(''version_added'', JStr ''1'')])])]), (''y'', JObj [])])" by code_simp
  have gf: "getFilePath (jsNamespaces exampleEnv) (path_join exampleEnv) [''x''] = Inl (Error ''Cannot determine file path from BCD path: x'')"
    by code_simp
  have g0: "getFilePath (jsNamespaces exampleEnv) (path_join exampleEnv) [decimal (length ([] :: json list))] = Inl (Error ''Cannot determine file path from BCD path: 0'')"
    by code_simp
  have g2: "getFilePath (jsNamespaces exampleEnv) (path_join exampleEnv) [''api'', ''Foo''] = Inr ''api/Foo.json''"
    by code_simp
  have mt: "recursiveAdd ([''api'', ''Foo''] @ [''__compat'']) 0
             (case map_of (files \<lparr>files = [(''api/Foo.json'', JObj [(''api'', JStr ''oops'')])], examined = []\<rparr>) ''api/Foo.json'' of Some d \<Rightarrow> d | None \<Rightarrow> JObj [])
             (case member (JObj [(''__compat'', JObj [(''support'', JObj [(''chrome'', JObj [(''version_added'', JStr ''1'')])])]), (''y'', JObj [])]) ''__compat'' of Some c \<Rightarrow> c | None \<Rightarrow> JNull) = Inl TypeError"
    by code_simp
  note A = traversal_examines_feature_nodes [where E = exampleEnv and obj = "JObj [(''api'', JObj [(''Foo'', JObj [(''__compat'', JObj [(''support'', JObj [(''chrome'', JObj [(''version_added'', JStr ''1'')])])]), (''bar'', JObj [(''__compat'', JObj [(''support'', JObj [(''chrome'', JObj [(''version_added'', JNull)])])])])])])]"
      and ident = "[]" and w = emptyWorld and w' = "\<lparr>files = [(''api/Foo.json'', JObj [(''api'', JObj [(''Foo'', JObj [(''__compat'', JObj [(''support'', JObj [(''chrome'', JObj [(''version_added'', JStr ''1'')])])])])])])], examined = [[''api''], [''api'', ''Foo''], [''api'', ''Foo'', ''bar'']]\<rparr>" and v = "JObj [(''__compat'', JObj [(''support'', JObj [(''chrome'', JObj [(''version_added'', JStr ''1'')])])]), (''y'', JObj [])]"
      and i = "''x''" and pre = "[]" and post = "[(''z'', JObj [])]" and ?w1.0 = emptyWorld
      and e = "Error ''Cannot determine file path from BCD path: x''" and thisIdent = "[] @ [''x'']"]
  note A' = traversal_examines_feature_nodes [where E = exampleEnv and thisIdent = "[''x'']"
      and e = "Error ''Cannot determine file path from BCD path: x''" and v = "JObj [(''__compat'', JObj [(''support'', JObj [(''chrome'', JObj [(''version_added'', JStr ''1'')])])]), (''y'', JObj [])]"
      and w = "emptyWorld\<lparr>examined := examined emptyWorld @ [[''x'']]\<rparr>"]
  note B = traversal_examines_feature_nodes [where E = exampleEnv and ident = "[]" and w = emptyWorld
      and v = "JObj [(''__compat'', JObj [(''support'', JObj [(''chrome'', JObj [(''version_added'', JStr ''1'')])])]), (''y'', JObj [])]" and elems = "[]" and others = "[JObj []]" and ?w1.0 = emptyWorld
      and e = "Error ''Cannot determine file path from BCD path: 0''" and thisIdent = "[] @ [decimal (length ([] :: json list))]"]
  note B' = traversal_examines_feature_nodes [where E = exampleEnv and thisIdent = "[decimal (length ([] :: json list))]"
      and e = "Error ''Cannot determine file path from BCD path: 0''" and v = "JObj [(''__compat'', JObj [(''support'', JObj [(''chrome'', JObj [(''version_added'', JStr ''1'')])])]), (''y'', JObj [])]"
      and w = "emptyWorld\<lparr>examined := examined emptyWorld @ [[] @ [decimal (length ([] :: json list))]]\<rparr>"]
  note C = traversal_examines_feature_nodes [where E = exampleEnv and w = "\<lparr>files = [(''api/Foo.json'', JObj [(''api'', JStr ''oops'')])], examined = []\<rparr>"
      and v = "JObj [(''__compat'', JObj [(''support'', JObj [(''chrome'', JObj [(''version_added'', JStr ''1'')])])]), (''y'', JObj [])]" and e = TypeError and thisIdent = "[''api'', ''Foo'']"
      and filepath = "''api/Foo.json''"]
  have ap: "[] @ [''x''] = [''x'']" and ap0: "[] @ [decimal (length ([] :: json list))] = [decimal (length ([] :: json list))]"
    by simp_all
  have c1: "examined \<lparr>files = [(''api/Foo.json'', JObj [(''api'', JObj [(''Foo'', JObj [(''__compat'', JObj [(''support'', JObj [(''chrome'', JObj [(''version_added'', JStr ''1'')])])])])])])], examined = [[''api''], [''api'', ''Foo''], [''api'', ''Foo'', ''bar'']]\<rparr>
       = examined emptyWorld @ map ((@) []) (featurePaths (JObj [(''api'', JObj [(''Foo'', JObj [(''__compat'', JObj [(''support'', JObj [(''chrome'', JObj [(''version_added'', JStr ''1'')])])]), (''bar'', JObj [(''__compat'', JObj [(''support'', JObj [(''chrome'', JObj [(''version_added'', JNull)])])])])])])]))"
    by (rule mp [OF A [THEN conjunct1] run])
  have c5: "writeFile exampleEnv [''x''] (JObj [(''__compat'', JObj [(''support'', JObj [(''chrome'', JObj [(''version_added'', JStr ''1'')])])]), (''y'', JObj [])]) (emptyWorld\<lparr>examined := examined emptyWorld @ [[''x'']]\<rparr>) = Inl (Error ''Cannot determine file path from BCD path: x'')"
    by (rule mp [OF A' [THEN conjunct2, THEN conjunct2, THEN conjunct2, THEN conjunct2, THEN conjunct1] gf])
  have c5': "writeFile exampleEnv ([] @ [''x'']) (JObj [(''__compat'', JObj [(''support'', JObj [(''chrome'', JObj [(''version_added'', JStr ''1'')])])]), (''y'', JObj [])]) (emptyWorld\<lparr>examined := examined emptyWorld @ [[] @ [''x'']]\<rparr>) = Inl (Error ''Cannot determine file path from BCD path: x'')"
    unfolding ap by (rule c5)
  have c4: "examine exampleEnv ([] @ [''x'']) (JObj [(''__compat'', JObj [(''support'', JObj [(''chrome'', JObj [(''version_added'', JStr ''1'')])])]), (''y'', JObj [])]) emptyWorld = Inl (Error ''Cannot determine file path from BCD path: x'')"
    by (rule mp [OF A [THEN conjunct2, THEN conjunct2, THEN conjunct2, THEN conjunct1]
          conjI [OF nn conjI [OF ns c5']]])
  have c2: "traverseFeatures exampleEnv (JObj ([] @ (''x'', (JObj [(''__compat'', JObj [(''support'', JObj [(''chrome'', JObj [(''version_added'', JStr ''1'')])])]), (''y'', JObj [])])) # [(''z'', JObj [])])) [] emptyWorld = Inl (Error ''Cannot determine file path from BCD path: x'')"
    by (rule mp [OF A [THEN conjunct2, THEN conjunct1]
          conjI [OF ov conjI [OF ix conjI [OF pre disjI1 [OF c4]]]]])
  have w0: "writeFile exampleEnv [decimal (length ([] :: json list))] (JObj [(''__compat'', JObj [(''support'', JObj [(''chrome'', JObj [(''version_added'', JStr ''1'')])])]), (''y'', JObj [])]) (emptyWorld\<lparr>examined := examined emptyWorld @ [[] @ [decimal (length ([] :: json list))]]\<rparr>) = Inl (Error ''Cannot determine file path from BCD path: 0'')"
    by (rule mp [OF B' [THEN conjunct2, THEN conjunct2, THEN conjunct2, THEN conjunct2, THEN conjunct1] g0])
  have w0': "writeFile exampleEnv ([] @ [decimal (length ([] :: json list))]) (JObj [(''__compat'', JObj [(''support'', JObj [(''chrome'', JObj [(''version_added'', JStr ''1'')])])]), (''y'', JObj [])]) (emptyWorld\<lparr>examined := examined emptyWorld @ [[] @ [decimal (length ([] :: json list))]]\<rparr>) = Inl (Error ''Cannot determine file path from BCD path: 0'')"
    unfolding ap0 by (rule w0 [unfolded ap0])
  have e0: "examine exampleEnv ([] @ [decimal (length ([] :: json list))]) (JObj [(''__compat'', JObj [(''support'', JObj [(''chrome'', JObj [(''version_added'', JStr ''1'')])])]), (''y'', JObj [])]) emptyWorld = Inl (Error ''Cannot determine file path from BCD path: 0'')"
    by (rule mp [OF B [THEN conjunct2, THEN conjunct2, THEN conjunct2, THEN conjunct1]
          conjI [OF nn conjI [OF ns w0']]])
  have c3: "traverseFeatures exampleEnv (JArr ([] @ (JObj [(''__compat'', JObj [(''support'', JObj [(''chrome'', JObj [(''version_added'', JStr ''1'')])])]), (''y'', JObj [])]) # [JObj []])) [] emptyWorld = Inl (Error ''Cannot determine file path from BCD path: 0'')"
    by (rule mp [OF B [THEN conjunct2, THEN conjunct2, THEN conjunct1]
          conjI [OF ov conjI [OF pra disjI1 [OF e0]]]])
  have c6: "writeFile exampleEnv [''api'', ''Foo''] (JObj [(''__compat'', JObj [(''support'', JObj [(''chrome'', JObj [(''version_added'', JStr ''1'')])])]), (''y'', JObj [])]) \<lparr>files = [(''api/Foo.json'', JObj [(''api'', JStr ''oops'')])], examined = []\<rparr> = Inl TypeError"
    by (rule mp [OF C [THEN conjunct2, THEN conjunct2, THEN conjunct2, THEN conjunct2, THEN conjunct2]
          conjI [OF g2 mt]])
  show ?thesis
    using run c1 paths ov pre pra nn ns gf c5 c4 c2 e0 c3 g2 c6
    by (intro conjI) assumption+
qed


end
